theory Spec2Isabelle
  imports Complex_Main "HOL-Library.AList" "HOL-Library.Char_ord" "HOL-Library.List_Lexorder"
begin

section \<open>Strings\<close>

text \<open>
  A Python \<open>str\<close> is modelled as a \<^typ>\<open>string\<close>: each \<^typ>\<open>char\<close> stands for the
  code point of the same number, so the model covers the texts whose code points are
  below 256. Within that range \<open>str.isspace\<close> holds of the code points 9 to 13, 28 to 32,
  133 and 160.
\<close>

definition whitespace :: "char list" where
  "whitespace = [CHR 0x09, CHR 0x0A, CHR 0x0B, CHR 0x0C, CHR 0x0D,
                 CHR 0x1C, CHR 0x1D, CHR 0x1E, CHR 0x1F, CHR 0x20, CHR 0x85, CHR 0xA0]"

definition is_space :: "char \<Rightarrow> bool" where
  "is_space c = (c \<in> set whitespace)"

text \<open>\<open>s.strip()\<close>: drop the leading and the trailing white space.\<close>

definition strip :: "string \<Rightarrow> string" where
  "strip s = rev (dropWhile is_space (rev (dropWhile is_space s)))"

text \<open>
  \<open>s.split()\<close>: the maximal runs of characters that are not white space, in order.
  \<open>split_ws acc s\<close> carries the run read so far.
\<close>

fun split_ws :: "string \<Rightarrow> string \<Rightarrow> string list" where
  "split_ws acc [] = (if acc = [] then [] else [acc])"
| "split_ws acc (c # cs) =
     (if is_space c then (if acc = [] then split_ws [] cs else acc # split_ws [] cs)
      else split_ws (acc @ [c]) cs)"

definition split :: "string \<Rightarrow> string list" where
  "split s = split_ws [] s"

text \<open>\<open>" ".join(ws)\<close>\<close>

fun join :: "string list \<Rightarrow> string" where
  "join [] = []"
| "join [w] = w"
| "join (w # v # ws) = w @ CHR '' '' # join (v # ws)"

text \<open>\<open>p.startswith(q)\<close> and \<open>q in p\<close> (substring).\<close>

definition startswith :: "string \<Rightarrow> string \<Rightarrow> bool" where
  "startswith p q = (take (length q) p = q)"

fun contains :: "string \<Rightarrow> string \<Rightarrow> bool" where
  "contains [] q = (q = [])"
| "contains (c # cs) q = (startswith (c # cs) q \<or> contains cs q)"

text \<open>\<open>xs.index(x)\<close> where \<open>x\<close> occurs: the position of the first occurrence.\<close>

fun index_of :: "'a \<Rightarrow> 'a list \<Rightarrow> nat option" where
  "index_of x [] = None"
| "index_of x (y # ys) = (if x = y then Some 0 else map_option Suc (index_of x ys))"

subsection \<open>\<open>int(s)\<close> on a string\<close>

text \<open>
  \<open>int(s)\<close> in base ten: white space around the number is dropped (for \<open>int\<close> that is the
  code points 9 to 13 and 32, and 133 and 160 beyond ASCII; 28 to 31 are not), then an
  optional sign, then decimal digits, single underscores allowed between two digits.
  Anything else raises \<open>ValueError\<close>, here \<open>None\<close>. The interpreter's run-time cap on the
  number of digits is a setting of the interpreter and is not modelled.
\<close>

definition int_space :: "char \<Rightarrow> bool" where
  "int_space c = (c \<in> set [CHR 0x09, CHR 0x0A, CHR 0x0B, CHR 0x0C, CHR 0x0D, CHR 0x20,
                            CHR 0x85, CHR 0xA0])"

definition digit_val :: "char \<Rightarrow> nat option" where
  "digit_val c = (if CHR ''0'' \<le> c \<and> c \<le> CHR ''9'' then Some (of_char c - 48) else None)"

text \<open>
  \<open>digits acc prev_us s\<close> reads the digits of \<open>s\<close> after at least one digit has been read;
  \<open>prev_us\<close> says that the last character read was an underscore.
\<close>

fun digits :: "nat \<Rightarrow> bool \<Rightarrow> string \<Rightarrow> nat option" where
  "digits acc prev_us [] = (if prev_us then None else Some acc)"
| "digits acc prev_us (c # cs) =
     (if c = CHR ''_'' then (if prev_us then None else digits acc True cs)
      else (case digit_val c of None \<Rightarrow> None | Some d \<Rightarrow> digits (10 * acc + d) False cs))"

definition unsigned :: "string \<Rightarrow> nat option" where
  "unsigned s = (case s of [] \<Rightarrow> None
                 | c # cs \<Rightarrow> (case digit_val c of None \<Rightarrow> None | Some d \<Rightarrow> digits d False cs))"

definition py_int :: "string \<Rightarrow> int option" where
  "py_int s =
     (let t = rev (dropWhile int_space (rev (dropWhile int_space s)))
      in case t of
           [] \<Rightarrow> None
         | c # cs \<Rightarrow>
             if c = CHR ''-'' then map_option (\<lambda>n. - int n) (unsigned cs)
             else if c = CHR ''+'' then map_option int (unsigned cs)
             else map_option int (unsigned t))"

section \<open>Record model\<close>

record ToteItem =
  item_title :: string
  description :: string
  quantity :: int
  image_url :: "string option"

record Tote =
  tote_id :: string
  title :: string
  location :: string
  qrdata :: "string option"
  items :: "ToteItem list"
  parent_id :: "string option"
  children :: "string list"

text \<open>\<open>Tote(tote_id=tote_id)\<close>: the other fields take their defaults.\<close>

definition new_tote :: "string \<Rightarrow> Tote" where
  "new_tote i = \<lparr>tote_id = i, title = [], location = [], qrdata = None, items = [],
                 parent_id = None, children = []\<rparr>"

text \<open>
  \<open>Tote.add_item\<close>. The quantity argument is \<open>None\<close> or a string; \<open>int\<close> raising is caught
  and gives 1. \<open>image_url or None\<close> turns the empty string into \<open>None\<close>.
\<close>

definition parse_qty :: "string option \<Rightarrow> int" where
  "parse_qty q =
     (case q of
        None \<Rightarrow> 1
      | Some s \<Rightarrow>
          if s = [] \<or> s = '' '' then 1
          else (case py_int s of None \<Rightarrow> 1 | Some n \<Rightarrow> n))"

definition add_item :: "Tote \<Rightarrow> string \<Rightarrow> string \<Rightarrow> string option \<Rightarrow> string option \<Rightarrow> Tote" where
  "add_item t ttl desc q img =
     (if ttl = [] \<and> desc = [] then t
      else t\<lparr>items := items t @
                [\<lparr>item_title = strip ttl, description = strip desc, quantity = parse_qty q,
                  image_url = (case img of None \<Rightarrow> None
                               | Some u \<Rightarrow> if u = [] then None else Some u)\<rparr>]\<rparr>)"

section \<open>CSV ingestion\<close>

text \<open>
  A file is the list of rows that \<open>csv.reader\<close> yields, a row the list of its cells.
  Opening and decoding a file belong to the run-time library and are not modelled.
\<close>

type_synonym row = "string list"

text \<open>
  The dictionary \<open>totes\<close> keeps its keys in insertion order; it is an association list
  with distinct keys. \<^const>\<open>AList.update\<close> is the assignment \<open>totes[k] = v\<close>: in place
  for a key that is present, at the end for a new one. The \<open>Tote\<close> objects are shared
  with the dictionary, so a mutation of one is an update of its entry.
\<close>

type_synonym totes = "(string \<times> Tote) list"

text \<open>\<open>header_index\<close>: field name to column position.\<close>

type_synonym header = "string \<Rightarrow> nat option"

datatype mode = UNKNOWN | PRIMARY | EMPTY | EMPTY_PENDING_HEADER

datatype error = IndexError

definition PRIMARY_HEADER :: "string list" where
  "PRIMARY_HEADER = [''PROFILE'', ''TOTE ID'', ''PARENT TOTE ID'', ''QRDATA'', ''TOTE LOCATION'',
     ''TOTE TITLE'', ''ITEM TITLE'', ''ITEM DESCRIPTION'', ''UPC'', ''ITEM QUANTITY'', ''IMAGES'',
     ''CREATED'', ''UPDATED'', ''ITEM URL'']"

definition EMPTY_HEADER :: "string list" where
  "EMPTY_HEADER = [''PROFILE'', ''TOTE ID'', ''TOTE LOCATION'', ''TOTE TITLE'']"

text \<open>
  \<open>sniff_headers\<close>. The byte-order mark U+FEFF lies outside the modelled characters, so
  stripping it (the second \<open>strip\<close> of the source) changes no modelled cell.
\<close>

definition sniff_headers :: "row \<Rightarrow> mode" where
  "sniff_headers line =
     (let norm = map strip line
      in if length PRIMARY_HEADER \<le> length norm \<and>
            list_all (\<lambda>h. h \<in> set norm) [''TOTE ID'', ''QRDATA'', ''ITEM TITLE'', ''ITEM QUANTITY'']
         then PRIMARY
         else if length norm = length EMPTY_HEADER \<and> list_all (\<lambda>h. h \<in> set norm) EMPTY_HEADER
         then EMPTY
         else UNKNOWN)"

text \<open>\<open>{name: row.index(name) for name in row}\<close>\<close>

definition header_of :: "row \<Rightarrow> header" where
  "header_of r = (\<lambda>name. index_of name r)"

text \<open>
  \<open>row[header_index.get(name, 0)].strip()\<close>: column 0 when the name is not in the mapping,
  \<open>IndexError\<close> when the row is too short.
\<close>

definition cell :: "header \<Rightarrow> row \<Rightarrow> string \<Rightarrow> error + string" where
  "cell hi r name =
     (let j = (case hi name of None \<Rightarrow> 0 | Some j \<Rightarrow> j)
      in if j < length r then Inr (strip (r ! j)) else Inl IndexError)"

definition and_then :: "error + 'a \<Rightarrow> ('a \<Rightarrow> error + 'b) \<Rightarrow> error + 'b" where
  "and_then x f = (case x of Inl e \<Rightarrow> Inl e | Inr v \<Rightarrow> f v)"

text \<open>
  The parent id of a row: the stripped cell when the column is in the mapping, the
  empty string when it is not or when reading the cell raises.
\<close>

definition parent_cell :: "header \<Rightarrow> row \<Rightarrow> string" where
  "parent_cell hi r =
     (case hi ''PARENT TOTE ID'' of
        None \<Rightarrow> []
      | Some j \<Rightarrow> if j < length r then strip (r ! j) else [])"

text \<open>The first whitespace-separated part of \<open>IMAGES\<close> that starts with \<open>http\<close>.\<close>

definition first_image :: "string \<Rightarrow> string option" where
  "first_image images_field =
     (case filter (\<lambda>p. startswith p ''http'') (split images_field) of
        [] \<Rightarrow> None
      | p # _ \<Rightarrow> Some p)"

text \<open>
  What a \<open>PRIMARY\<close> data row does to its \<open>Tote\<close> (lines 166 to 186). \<open>a or b\<close> does not
  evaluate \<open>b\<close> when \<open>a\<close> is non-empty, so a field already set reads no cell.
\<close>

definition primary_fields :: "header \<Rightarrow> row \<Rightarrow> Tote \<Rightarrow> error + Tote" where
  "primary_fields hi r t =
     and_then (if title t \<noteq> [] then Inr (title t) else cell hi r ''TOTE TITLE'') (\<lambda>ttl.
     and_then (if location t \<noteq> [] then Inr (location t) else cell hi r ''TOTE LOCATION'') (\<lambda>loc.
     and_then (if qrdata t \<noteq> None \<and> qrdata t \<noteq> Some [] then Inr (qrdata t)
               else and_then (cell hi r ''QRDATA'') (\<lambda>q. Inr (if q \<noteq> [] then Some q else None)))
       (\<lambda>qr.
     let p_id = parent_cell hi r;
         t1 = t\<lparr>title := ttl, location := loc, qrdata := qr,
                parent_id := (if p_id \<noteq> [] then Some p_id else parent_id t)\<rparr>
     in
     and_then (cell hi r ''ITEM TITLE'') (\<lambda>item_ttl.
     and_then (cell hi r ''ITEM DESCRIPTION'') (\<lambda>item_desc.
     and_then (cell hi r ''ITEM QUANTITY'') (\<lambda>qty_raw.
     and_then (cell hi r ''IMAGES'') (\<lambda>images_field.
     Inr (add_item t1 item_ttl item_desc (Some qty_raw)
            (if images_field \<noteq> [] then first_image images_field else None)))))))))"

text \<open>
  A data row in \<open>PRIMARY\<close> mode. \<open>row[header_index.get("TOTE ID")]\<close> raises when the name
  is not in the mapping or the row is too short; the row is then skipped.
\<close>

definition primary_row :: "header \<Rightarrow> row \<Rightarrow> totes \<Rightarrow> error + totes" where
  "primary_row hi r ts =
     (case hi ''TOTE ID'' of
        None \<Rightarrow> Inr ts
      | Some i \<Rightarrow>
          if length r \<le> i then Inr ts
          else let k = r ! i;
                   t = (case map_of ts k of None \<Rightarrow> new_tote k | Some t \<Rightarrow> t)
               in and_then (primary_fields hi r t) (\<lambda>t'. Inr (AList.update k t' ts)))"

text \<open>A data row in \<open>EMPTY\<close> mode (lines 189 to 198).\<close>

definition empty_row :: "header \<Rightarrow> row \<Rightarrow> totes \<Rightarrow> error + totes" where
  "empty_row hi r ts =
     (case hi ''TOTE ID'' of
        None \<Rightarrow> Inr ts
      | Some i \<Rightarrow>
          if length r \<le> i then Inr ts
          else (case map_of ts (r ! i) of
                  None \<Rightarrow> Inr ts
                | Some t \<Rightarrow>
                    and_then (if title t \<noteq> [] then Inr (title t) else cell hi r ''TOTE TITLE'') (\<lambda>ttl.
                    and_then (if location t \<noteq> [] then Inr (location t)
                              else cell hi r ''TOTE LOCATION'') (\<lambda>loc.
                    Inr (AList.update (r ! i) (t\<lparr>title := ttl, location := loc\<rparr>) ts)))))"

text \<open>One iteration of the loop over the rows of a file.\<close>

definition blank :: "row \<Rightarrow> bool" where
  "blank r = list_all (\<lambda>c. strip c = []) r"

definition marker :: "row \<Rightarrow> bool" where
  "marker r = (length r = 1 \<and> contains (r ! 0) ''Empty ToteScan labels'')"

definition process_row :: "row \<Rightarrow> mode \<times> header \<times> totes \<Rightarrow> error + mode \<times> header \<times> totes" where
  "process_row r st =
     (case st of (current_mode, header_index, ts) \<Rightarrow>
        if blank r then Inr st
        else if marker r then Inr (EMPTY_PENDING_HEADER, Map.empty, ts)
        else if sniff_headers r = PRIMARY then Inr (PRIMARY, header_of r, ts)
        else if sniff_headers r = EMPTY then Inr (EMPTY, header_of r, ts)
        else if current_mode = EMPTY_PENDING_HEADER \<and> list_all (\<lambda>h. h \<in> set r) EMPTY_HEADER
        then Inr (EMPTY, header_of r, ts)
        else if current_mode = PRIMARY
        then and_then (primary_row header_index r ts) (\<lambda>ts'. Inr (current_mode, header_index, ts'))
        else if current_mode = EMPTY
        then and_then (empty_row header_index r ts) (\<lambda>ts'. Inr (current_mode, header_index, ts'))
        else Inr st)"

fun process_rows :: "row list \<Rightarrow> mode \<times> header \<times> totes \<Rightarrow> error + mode \<times> header \<times> totes" where
  "process_rows [] st = Inr st"
| "process_rows (r # rs) st = and_then (process_row r st) (process_rows rs)"

text \<open>Every file starts in mode \<open>UNKNOWN\<close> with an empty mapping; \<open>totes\<close> is kept.\<close>

fun read_files :: "row list list \<Rightarrow> totes \<Rightarrow> error + totes" where
  "read_files [] ts = Inr ts"
| "read_files (f # fs) ts =
     and_then (process_rows f (UNKNOWN, Map.empty, ts)) (\<lambda>(m, h, ts'). read_files fs ts')"

text \<open>
  The links (lines 205 to 212). The loop runs over a copy of the values; it changes only
  \<open>children\<close>, so the \<open>tote_id\<close> and \<open>parent_id\<close> it reads are those of the copy.
\<close>

definition link_one :: "Tote \<Rightarrow> totes \<Rightarrow> totes" where
  "link_one t ts =
     (case parent_id t of
        None \<Rightarrow> ts
      | Some p \<Rightarrow>
          if p = [] then ts
          else (case map_of ts p of
                  None \<Rightarrow> ts
                | Some parent \<Rightarrow>
                    if tote_id t \<in> set (children parent) then ts
                    else AList.update p (parent\<lparr>children := children parent @ [tote_id t]\<rparr>) ts))"

definition build_links :: "totes \<Rightarrow> totes" where
  "build_links ts = fold link_one (map snd ts) ts"

definition read_csvs :: "row list list \<Rightarrow> error + totes" where
  "read_csvs files = and_then (read_files files []) (\<lambda>ts. Inr (build_links ts))"

section \<open>Text layout helpers\<close>

text \<open>
  \<open>pdfmetrics.stringWidth(text, font_name, font_size)\<close> belongs to the PDF library; it is
  the parameter \<open>sw\<close>, with values in any linear order. The font is taken to be registered,
  so that measuring does not raise.
\<close>

text \<open>
  The loop of \<open>wrap_text\<close> over the words, with its two variables \<open>lines\<close> and \<open>cur\<close>.
\<close>

fun wrap_loop ::
  "(string \<Rightarrow> string \<Rightarrow> int \<Rightarrow> 'w::linorder) \<Rightarrow> 'w \<Rightarrow> string \<Rightarrow> int \<Rightarrow>
   string list \<Rightarrow> string list \<Rightarrow> string list \<Rightarrow> string list \<times> string list" where
  "wrap_loop sw max_width font_name font_size [] lines cur = (lines, cur)"
| "wrap_loop sw max_width font_name font_size (w # ws) lines cur =
     (let candidate = strip (join (cur @ [w]))
      in if sw candidate font_name font_size \<le> max_width
         then wrap_loop sw max_width font_name font_size ws lines (cur @ [w])
         else wrap_loop sw max_width font_name font_size ws
                (if cur \<noteq> [] then lines @ [join cur] else lines) [w])"

definition wrap_text ::
  "(string \<Rightarrow> string \<Rightarrow> int \<Rightarrow> 'w::linorder) \<Rightarrow> string \<Rightarrow> 'w \<Rightarrow> string \<Rightarrow> int \<Rightarrow> string list" where
  "wrap_text sw text max_width font_name font_size =
     (case wrap_loop sw max_width font_name font_size (split text) [] [] of
        (lines, cur) \<Rightarrow>
          let lines' = (if cur \<noteq> [] then lines @ [join cur] else lines)
          in if lines' = [] then [[]] else lines')"

text \<open>
  A width measure is monotone when putting characters into a text never makes it
  narrower. Sums of glyph widths at a non-negative size are monotone.
\<close>

definition monotone_width :: "('c list \<Rightarrow> 'w::linorder) \<Rightarrow> bool" where
  "monotone_width m = (\<forall>xs ys zs. m (xs @ zs) \<le> m (xs @ ys @ zs))"

text \<open>A fixed-pitch measure for the examples: every character is \<open>font_size\<close> wide.\<close>

definition fixed_pitch :: "string \<Rightarrow> string \<Rightarrow> int \<Rightarrow> int" where
  "fixed_pitch text font_name font_size = int (length text) * font_size"

text \<open>A word, as \<open>split\<close> yields them: not empty and free of white space.\<close>

definition word :: "string \<Rightarrow> bool" where
  "word w = (w \<noteq> [] \<and> (\<forall>c \<in> set w. \<not> is_space c))"

text \<open>
  \<open>ellipsize\<close> (nested in \<open>draw_label\<close>) looks at no character of the text, so the text
  is a list over any character type. The ellipsis is the parameter \<open>ell\<close>: in the source
  it is the one-character string U+2026, a code point that \<^typ>\<open>char\<close> does not hold.
  The loop is the binary search on \<open>lo\<close> and \<open>hi\<close>; \<open>max(lo - 1, 0)\<close> is the truncating
  subtraction on \<^typ>\<open>nat\<close>.
\<close>

function ellipsize_loop ::
  "('c list \<Rightarrow> string \<Rightarrow> int \<Rightarrow> 'w::linorder) \<Rightarrow> 'c list \<Rightarrow> 'c list \<Rightarrow> 'w \<Rightarrow> string \<Rightarrow> int \<Rightarrow>
   nat \<Rightarrow> nat \<Rightarrow> nat" where
  "ellipsize_loop sw ell text max_w font_name font_size lo hi =
     (if lo < hi
      then let mid = (lo + hi) div 2
           in if sw (take mid text @ ell) font_name font_size \<le> max_w
              then ellipsize_loop sw ell text max_w font_name font_size (mid + 1) hi
              else ellipsize_loop sw ell text max_w font_name font_size lo mid
      else lo)"
  by pat_completeness auto
termination
  by (relation "measure (\<lambda>(sw, ell, text, max_w, font_name, font_size, lo, hi). hi - lo)") auto

definition ellipsize ::
  "('c list \<Rightarrow> string \<Rightarrow> int \<Rightarrow> 'w::linorder) \<Rightarrow> 'c list \<Rightarrow> 'c list \<Rightarrow> 'w \<Rightarrow> string \<Rightarrow> int \<Rightarrow> 'c list" where
  "ellipsize sw ell text max_w font_name font_size =
     (if sw text font_name font_size \<le> max_w then text
      else let lo = ellipsize_loop sw ell text max_w font_name font_size 0 (length text)
           in take (lo - 1) text @ ell)"

text \<open>A fixed-pitch measure on code points, for the examples.\<close>

definition fixed_pitch_cp :: "nat list \<Rightarrow> string \<Rightarrow> int \<Rightarrow> int" where
  "fixed_pitch_cp text font_name font_size = int (length text) * font_size"

section \<open>Document assembler\<close>

text \<open>
  A document is what \<open>generate_pdf\<close> saves: the output path, the page size, and the
  labels drawn, one \<open>draw_label\<close> call each, named by the id of its tote.
\<close>

datatype page_size = Letter | A4

record document =
  path :: string
  pagesize :: page_size
  render_mode :: string
  labels :: "string list"

text \<open>\<open>s.lower()\<close> on the modelled characters.\<close>

definition lower_char :: "char \<Rightarrow> char" where
  "lower_char c =
     (let n = of_char c :: nat
      in if (65 \<le> n \<and> n \<le> 90) \<or> (192 \<le> n \<and> n \<le> 222 \<and> n \<noteq> 215) then char_of (n + 32) else c)"

definition lower :: "string \<Rightarrow> string" where
  "lower s = map lower_char s"

text \<open>
  \<open>os.path.dirname\<close> and \<open>os.path.splitext\<close> for POSIX paths. \<open>rfind\<close> gives -1 when the
  character does not occur. \<open>dirname\<close> is the path up to its last slash, without the
  trailing slashes unless it consists of slashes only; it is empty for a path without a
  slash. \<open>splitext\<close> splits at the last dot of the last component, unless that component
  has only dots before it.
\<close>

definition rfind :: "string \<Rightarrow> char \<Rightarrow> int" where
  "rfind p c = (case filter (\<lambda>i. p ! i = c) (rev [0..<length p]) of [] \<Rightarrow> - 1 | i # _ \<Rightarrow> int i)"

definition dirname :: "string \<Rightarrow> string" where
  "dirname p =
     (let i = rfind p CHR ''/'' + 1;
          head = take (nat i) p
      in if head \<noteq> [] \<and> head \<noteq> replicate (length head) CHR ''/''
         then rev (dropWhile (\<lambda>c. c = CHR ''/'') (rev head))
         else head)"

definition splitext :: "string \<Rightarrow> string \<times> string" where
  "splitext p =
     (let sepIndex = rfind p CHR ''/'';
          dotIndex = rfind p CHR ''.''
      in if sepIndex < dotIndex \<and>
            list_ex (\<lambda>i. p ! i \<noteq> CHR ''.'') [nat (sepIndex + 1)..<nat dotIndex]
         then (take (nat dotIndex) p, drop (nat dotIndex) p)
         else (p, []))"

text \<open>
  What the file system and the PDF library do is the record \<open>out_env\<close>:
  \<^item> \<open>dir_ok d\<close>: \<open>os.makedirs(d, exist_ok=True)\<close> does not raise, for a directory name \<open>d\<close>
    that is not empty;
  \<^item> \<open>render_ok p m\<close>: for the document at path \<open>p\<close> in mode \<open>m\<close>, making the canvas, the
    calls of \<open>draw_label\<close> and \<open>c.save()\<close> do not raise.
  \<open>os.makedirs('')\<close> raises whatever the file system: an output path without a directory
  part makes \<open>generate_pdf\<close> raise before a label is drawn.
\<close>

datatype pdf_error = MakedirsError | RenderError

record out_env =
  dir_ok :: "string \<Rightarrow> bool"
  render_ok :: "string \<Rightarrow> string \<Rightarrow> bool"

text \<open>
  \<open>sorted(totes.keys())\<close> orders strings by code point, a proper prefix first: the
  lexicographic order of \<^typ>\<open>string\<close>.
\<close>

definition generate_pdf ::
  "out_env \<Rightarrow> totes \<Rightarrow> string \<Rightarrow> string \<Rightarrow> string \<Rightarrow> pdf_error + document" where
  "generate_pdf env ts output_path page mode =
     (let page_size = (if lower page = ''letter'' then Letter else A4);
          d = dirname output_path
      in if d = [] \<or> \<not> dir_ok env d then Inl MakedirsError
         else if \<not> render_ok env output_path mode then Inl RenderError
         else Inr \<lparr>path = output_path, pagesize = page_size, render_mode = mode,
                   labels = sort (map fst ts)\<rparr>)"

text \<open>
  \<open>main\<close>. The parsed arguments are a record (its fields carry the prefix \<open>arg_\<close>);
  \<open>collect_input_paths\<close> and the opening of the files are the parameter \<open>resolve\<close>, which
  gives the rows of the files found, or \<open>None\<close> when no file is found. The result is the
  exit code and the documents saved. An exception of \<open>read_csvs\<close> is not caught and ends
  the run; an exception of \<open>generate_pdf\<close> is caught and gives the exit code 3, the
  documents saved before it staying where they are.
\<close>

record args =
  arg_input :: string
  arg_output :: string
  arg_page :: string
  arg_mode :: string

definition main ::
  "(string \<Rightarrow> row list list option) \<Rightarrow> out_env \<Rightarrow> args \<Rightarrow> error + int \<times> document list" where
  "main resolve env a =
     (case resolve (arg_input a) of
        None \<Rightarrow> Inr (2, [])
      | Some files \<Rightarrow>
          and_then (read_csvs files) (\<lambda>ts.
            if ts = [] then Inr (1, [])
            else if arg_mode a = ''both''
            then (case splitext (arg_output a) of
                    (base, ext) \<Rightarrow>
                      let ext' = (if ext = [] then ''.pdf'' else ext);
                          thumbs_path = base @ ''_thumbs'' @ ext';
                          text_path = base @ ''_text'' @ ext'
                      in case generate_pdf env ts thumbs_path (arg_page a) ''thumbs'' of
                           Inl e \<Rightarrow> Inr (3, [])
                         | Inr d1 \<Rightarrow>
                             (case generate_pdf env ts text_path (arg_page a) ''text'' of
                                Inl e \<Rightarrow> Inr (3, [d1])
                              | Inr d2 \<Rightarrow> Inr (0, [d1, d2])))
            else if arg_mode a = ''thumbs''
            then (case generate_pdf env ts (arg_output a) (arg_page a) ''thumbs'' of
                    Inl e \<Rightarrow> Inr (3, [])
                  | Inr d \<Rightarrow> Inr (0, [d]))
            else (case generate_pdf env ts (arg_output a) (arg_page a) ''text'' of
                    Inl e \<Rightarrow> Inr (3, [])
                  | Inr d \<Rightarrow> Inr (0, [d]))))"

text \<open>
  For the examples: the default arguments, the same with an output path that has no
  directory part, a file system and a PDF library on which nothing fails, and a model
  whose keys are not in order.
\<close>

definition sample_args :: args where
  "sample_args = \<lparr>arg_input = ''data'', arg_output = ''output/labels.pdf'', arg_page = ''letter'',
                   arg_mode = ''both''\<rparr>"

definition bare_args :: args where
  "bare_args = \<lparr>arg_input = ''data'', arg_output = ''labels.pdf'', arg_page = ''letter'',
                 arg_mode = ''both''\<rparr>"

definition willing :: out_env where
  "willing = \<lparr>dir_ok = (\<lambda>d. True), render_ok = (\<lambda>p m. True)\<rparr>"

definition unordered_model :: totes where
  "unordered_model = [(''B'', new_tote ''B''), (''a'', new_tote ''a''), (''AB'', new_tote ''AB''),
                      (''A'', new_tote ''A'')]"

section \<open>Thumbnail resolution\<close>

text \<open>
  \<open>fetch_thumbnail\<close> acts on the file system, the network and the imaging library. They
  are the record \<open>world\<close>, which says how each of their operations ends:
  \<^item> \<open>image_lib\<close>: the imaging library was imported (\<open>Image\<close> is not \<open>None\<close>);
  \<^item> \<open>makedirs_ok\<close>: \<open>os.makedirs(CACHE_DIR, exist_ok=True)\<close> does not raise;
  \<^item> \<open>cache\<close>: the cache file of a URL and a size, if it exists: a file that
    \<open>Image.open(...).convert("RGB")\<close> reads as a bitmap, or one on which it raises (the file
    name is a hash of the URL; two URLs with one hash are not modelled);
  \<^item> \<open>download\<close>: the thumbnail made from the URL by the lines 271 to 278, or \<open>None\<close> when
    one of them raises (network error, timeout, HTTP error status, decode failure);
  \<^item> \<open>remove_ok\<close>, \<open>save_ok\<close>: \<open>os.remove\<close> and \<open>img_copy.save\<close> do not raise.
  The function returns its result (an exception, or the bitmap or \<open>None\<close>), the world
  afterwards, and the operations it tried on the cache file and the network, in order.
\<close>

datatype 'img cached = Corrupt | Bitmap 'img

datatype os_error = OSError

datatype step = Remove | Get | Save

record 'img world =
  image_lib :: bool
  makedirs_ok :: bool
  cache :: "string \<times> int \<Rightarrow> 'img cached option"
  download :: "string \<Rightarrow> int \<Rightarrow> 'img option"
  remove_ok :: bool
  save_ok :: bool

text \<open>The download part (lines 270 to 286), entered with the steps tried so far.\<close>

definition fetch_remote ::
  "'img world \<Rightarrow> string \<Rightarrow> int \<Rightarrow> step list \<Rightarrow> (os_error + 'img option) \<times> 'img world \<times> step list" where
  "fetch_remote w url thumb_px steps =
     (case download w url thumb_px of
        None \<Rightarrow> (Inr None, w, steps @ [Get])
      | Some img \<Rightarrow>
          (Inr (Some img),
           (if save_ok w then w\<lparr>cache := (cache w)((url, thumb_px) \<mapsto> Bitmap img)\<rparr> else w),
           steps @ [Get, Save]))"

definition fetch_thumbnail ::
  "'img world \<Rightarrow> string \<Rightarrow> int \<Rightarrow> (os_error + 'img option) \<times> 'img world \<times> step list" where
  "fetch_thumbnail w url thumb_px =
     (if \<not> image_lib w then (Inr None, w, [])
      else if \<not> makedirs_ok w then (Inl OSError, w, [])
      else (case cache w (url, thumb_px) of
              None \<Rightarrow> fetch_remote w url thumb_px []
            | Some (Bitmap img) \<Rightarrow> (Inr (Some img), w, [])
            | Some Corrupt \<Rightarrow>
                fetch_remote
                  (if remove_ok w then w\<lparr>cache := (cache w)((url, thumb_px) := None)\<rparr> else w)
                  url thumb_px [Remove]))"

text \<open>A world for the examples: a corrupt cache file for one URL, and no network.\<close>

definition offline :: "nat world" where
  "offline = \<lparr>image_lib = True, makedirs_ok = True,
              cache = (\<lambda>k. if k = (''http://h/s.png'', 128) then Some Corrupt else None),
              download = (\<lambda>url px. None), remove_ok = True, save_ok = True\<rparr>"

section \<open>The item grid of a label\<close>

text \<open>
  Lengths are points. The source computes them as floats; the model computes with
  rationals, which give the same values and comparisons wherever the lengths are whole
  numbers of points, as the page sizes, the margin, the QR side and the row heights of
  the text mode are.

  \<open>render_items_grid_thumbs\<close> and \<open>render_items_grid_text\<close> are nested in \<open>draw_label\<close> and
  use its variables. Those that are fixed once the header is laid out are the record
  \<open>layout\<close> (\<open>qr_bottom_y\<close> is \<open>None\<close> when no QR code was drawn); the running
  \<open>y\<close> (here \<open>cursor_y\<close>), together with the number of \<open>showPage\<close> calls made so far for
  this label, is the record \<open>cursor\<close>. Page 0 is the first page of the label, the only one that carries
  the QR code.
\<close>

definition inch :: rat where
  "inch = 72"

definition qr_side :: rat where
  "qr_side = 3 / 2 * inch"

definition gutter :: rat where
  "gutter = 15 / 100 * inch"

definition pad :: rat where
  "pad = 4"

record layout =
  height :: rat
  margin :: rat
  content_width :: rat
  qr_bottom_y :: "rat option"

record cursor =
  cursor_y :: rat
  showpages :: nat

definition max_y :: "layout \<Rightarrow> rat" where
  "max_y L = margin L + 24"

text \<open>The layout that \<open>draw_label\<close> sets up for a page size and a margin.\<close>

definition label_layout :: "rat \<times> rat \<Rightarrow> rat \<Rightarrow> bool \<Rightarrow> layout" where
  "label_layout page_size mrg qr_drawn =
     (case page_size of (width, hgt) \<Rightarrow>
        \<lparr>height = hgt, margin = mrg, content_width = width - 2 * mrg,
         qr_bottom_y = (if qr_drawn then Some ((hgt - mrg) - qr_side) else None)\<rparr>)"

definition letter :: "rat \<times> rat" where
  "letter = (612, 792)"

text \<open>A row of the grid as it is drawn: its page, its top, and the widths used for it.\<close>

record placed =
  on_page :: nat
  row_top :: rat
  row_available_width :: rat
  col_width :: rat

text \<open>\<open>max(row_heights) if row_heights else 0\<close>\<close>

definition max_height :: "rat list \<Rightarrow> rat" where
  "max_height hs = (case hs of [] \<Rightarrow> 0 | h # hs' \<Rightarrow> fold max hs' h)"

text \<open>
  The \<open>while\<close> loop over the rows, which the two functions share word for word, apart
  from the number of columns and the function that measures a cell. It is not entered
  with \<open>cols = 0\<close>.
\<close>

function grid_rows ::
  "layout \<Rightarrow> nat \<Rightarrow> (ToteItem \<Rightarrow> rat \<Rightarrow> rat) \<Rightarrow> ToteItem list \<Rightarrow> cursor \<Rightarrow> cursor \<times> placed list" where
  "grid_rows L cols measure_cell its c =
     (if its = [] \<or> cols = 0 then (c, [])
      else
        let row_items = take cols its;
            raw = (case qr_bottom_y L of
                     None \<Rightarrow> content_width L
                   | Some b \<Rightarrow> if b < cursor_y c then content_width L - (qr_side + 1 / 4 * inch)
                               else content_width L);
            cw = (raw - gutter * (of_nat cols - 1)) / of_nat cols;
            row_h = max_height (map (\<lambda>it. measure_cell it cw) row_items);
            c1 = (if cursor_y c - row_h < max_y L
                  then \<lparr>cursor_y = (height L - margin L) - 22, showpages = showpages c + 1\<rparr>
                  else c);
            box = \<lparr>on_page = showpages c1, row_top = cursor_y c1, row_available_width = raw, col_width = cw\<rparr>;
            c2 = c1\<lparr>cursor_y := cursor_y c1 - (row_h + 6)\<rparr>
        in case grid_rows L cols measure_cell (drop cols its) c2 of
             (c', boxes) \<Rightarrow> (c', box # boxes))"
  by pat_completeness auto
termination
  by (relation "measure (\<lambda>(L, cols, m, its, c). length its)") auto

text \<open>
  \<open>measure_cell_text\<close>, the cell height of the text mode. The title line that the source
  also computes does not enter the height.
\<close>

definition measure_cell_text ::
  "(string \<Rightarrow> string \<Rightarrow> int \<Rightarrow> rat) \<Rightarrow> string \<Rightarrow> string \<Rightarrow> ToteItem \<Rightarrow> rat \<Rightarrow> rat" where
  "measure_cell_text sw ell font_body it col_w =
     (let text_w = col_w - 2 * pad;
          desc_text = strip (description it);
          desc_line = (if desc_text \<noteq> [] then ellipsize sw ell desc_text text_w font_body 9 else []);
          lines_h = 11 + (if desc_line \<noteq> [] then 10 else 0)
      in pad + lines_h + pad)"

text \<open>An empty item list draws the placeholder line and lowers \<open>y\<close> by 14.\<close>

definition render_items_grid_text ::
  "(string \<Rightarrow> string \<Rightarrow> int \<Rightarrow> rat) \<Rightarrow> string \<Rightarrow> string \<Rightarrow> layout \<Rightarrow> ToteItem list \<Rightarrow> cursor \<Rightarrow>
   cursor \<times> placed list" where
  "render_items_grid_text sw ell font_body L its c =
     (if its = [] then (c\<lparr>cursor_y := cursor_y c - 14\<rparr>, [])
      else grid_rows L 4 (measure_cell_text sw ell font_body) its c)"

text \<open>
  The thumbnail mode: its \<open>measure_cell\<close> wraps the texts and asks for the thumbnail of
  the item; it is the parameter \<open>measure_cell\<close>.
\<close>

definition render_items_grid_thumbs ::
  "(ToteItem \<Rightarrow> rat \<Rightarrow> rat) \<Rightarrow> layout \<Rightarrow> ToteItem list \<Rightarrow> cursor \<Rightarrow> cursor \<times> placed list" where
  "render_items_grid_thumbs measure_cell L its c =
     (if its = [] then (c\<lparr>cursor_y := cursor_y c - 14\<rparr>, [])
      else grid_rows L 5 measure_cell its c)"

text \<open>An item without description, for the examples.\<close>

definition plain_item :: ToteItem where
  "plain_item = \<lparr>item_title = ''Screw'', description = [], quantity = 1, image_url = None\<rparr>"

text \<open>
  Where the grid starts: \<open>y\<close> when \<open>draw_label\<close> reaches the items (lines 316 to 388), from
  the numbers of wrapped lines of the title and of the id, of the location (\<open>None\<close>
  without a location) and of the sub-tote index (\<open>None\<close> without children).
\<close>

definition items_top :: "layout \<Rightarrow> nat \<Rightarrow> nat \<Rightarrow> nat option \<Rightarrow> nat option \<Rightarrow> rat" where
  "items_top L title_lines id_lines loc_lines child_lines =
     (height L - margin L) - 26 * of_nat title_lines - 18 * of_nat id_lines
       - (case loc_lines of None \<Rightarrow> 8 | Some n \<Rightarrow> 14 * of_nat n + 2)
       - 12
       - (case child_lines of None \<Rightarrow> 0 | Some n \<Rightarrow> 16 + 12 * of_nat n)
       - 14 - 16"

section \<open>Invariants of the ingestion\<close>

definition wf_totes :: "totes \<Rightarrow> bool" where
  "wf_totes ts = (distinct (map fst ts) \<and>
     (\<forall>(k, t) \<in> set ts. tote_id t = k \<and> children t = [] \<and> parent_id t \<noteq> Some []))"

definition linked :: "totes \<Rightarrow> bool" where
  "linked ts = (\<forall>k c. map_of ts k = Some c \<longrightarrow>
      tote_id c = k \<and> distinct (children c) \<and>
      (\<forall>ch \<in> set (children c). \<exists>t. map_of ts ch = Some t \<and> parent_id t = Some k))"

definition agree :: "totes \<Rightarrow> totes \<Rightarrow> bool" where
  "agree ts0 ts = (\<forall>k t0. map_of ts0 k = Some t0 \<longrightarrow>
      (\<exists>t. map_of ts k = Some t \<and> parent_id t = parent_id t0 \<and> tote_id t = tote_id t0))"

definition reached :: "Tote \<Rightarrow> totes \<Rightarrow> bool" where
  "reached x ts = (\<forall>p par. parent_id x = Some p \<longrightarrow> p \<noteq> [] \<longrightarrow> map_of ts p = Some par \<longrightarrow>
      tote_id x \<in> set (children par))"

section \<open>Values of a field across rows\<close>

text \<open>
  The value a row shows for a field: the stripped cell that \<^const>\<open>cell\<close> reads, and the
  empty string when the row has no such cell. A data row is a row that is neither blank,
  nor the section marker, nor a header.
\<close>

definition field :: "header \<Rightarrow> row \<Rightarrow> string \<Rightarrow> string" where
  "field hi r name = (case cell hi r name of Inl e \<Rightarrow> [] | Inr v \<Rightarrow> v)"

definition data_row :: "row \<Rightarrow> bool" where
  "data_row r = (\<not> blank r \<and> \<not> marker r \<and> sniff_headers r = UNKNOWN)"

definition first_nonempty :: "string list \<Rightarrow> string option" where
  "first_nonempty vs = (case filter (\<lambda>v. v \<noteq> []) vs of [] \<Rightarrow> None | v # _ \<Rightarrow> Some v)"

definition last_nonempty :: "string list \<Rightarrow> string option" where
  "last_nonempty vs = (case filter (\<lambda>v. v \<noteq> []) vs of [] \<Rightarrow> None | v # ws \<Rightarrow> Some (last (v # ws)))"

definition or_empty :: "string option \<Rightarrow> string" where
  "or_empty v = (case v of None \<Rightarrow> [] | Some s \<Rightarrow> s)"

text \<open>The rows of a section that name container \<open>k\<close> in column \<open>i\<close>.\<close>

definition rows_of :: "nat \<Rightarrow> string \<Rightarrow> row list \<Rightarrow> row list" where
  "rows_of i k rows = filter (\<lambda>r. i < length r \<and> r ! i = k) rows"

text \<open>
  \<open>settled hi t0 rs t\<close>: the fields of \<open>t\<close> are those of \<open>t0\<close> where set, else the first
  non-empty values of the rows \<open>rs\<close>; the parent id is the last non-empty one of \<open>rs\<close>,
  else that of \<open>t0\<close>.
\<close>

definition settled :: "header \<Rightarrow> Tote \<Rightarrow> row list \<Rightarrow> Tote \<Rightarrow> bool" where
  "settled hi t0 rs t =
     (title t = (if title t0 \<noteq> [] then title t0
                 else or_empty (first_nonempty (map (\<lambda>r. field hi r ''TOTE TITLE'') rs))) \<and>
      location t = (if location t0 \<noteq> [] then location t0
                 else or_empty (first_nonempty (map (\<lambda>r. field hi r ''TOTE LOCATION'') rs))) \<and>
      qrdata t = (if qrdata t0 \<noteq> None then qrdata t0
                 else first_nonempty (map (\<lambda>r. field hi r ''QRDATA'') rs)) \<and>
      parent_id t = (case last_nonempty (map (parent_cell hi) rs) of
                       None \<Rightarrow> parent_id t0 | Some p \<Rightarrow> Some p))"

section \<open>Sample inputs\<close>

text \<open>
  The data rows of a primary section (a tote, a sub tote named twice with its parent, a
  tote whose parent does not exist); a file made of that section and a reduced section (a
  row for an unknown tote, a row that completes a known one); and the model that
  \<open>read_csvs\<close> builds from the file.
\<close>

definition sample_rows :: "row list" where
  "sample_rows =
     [[''p'', ''T1'', '''', ''qr-T1'', ''Garage'', ''Tools'', ''Hammer'', ''steel'', '''', ''2'', '''', '''', '''', ''''],
      [''p'', ''T2'', ''T1'', '''', '''', ''Screws'', ''Screw'', '''', '''', '''', ''x http://h/s.png'', '''', '''', ''''],
      [''p'', ''T2'', ''T1'', '''', ''Shelf'', ''Bolts'', ''Bolt'', '''', '''', ''x'', '''', '''', '''', ''''],
      [''p'', ''T3'', ''T9'', '''', '''', '''', ''Tape'', '''', '''', ''1'', '''', '''', '''', '''']]"

definition sample_file :: "row list" where
  "sample_file =
     PRIMARY_HEADER # sample_rows @
     [[''Empty ToteScan labels without items''],
      EMPTY_HEADER,
      [''p'', ''T7'', ''Attic'', ''Spare''],
      [''p'', ''T3'', ''Attic'', ''Spare'']]"

definition sample_model :: totes where
  "sample_model =
     [(''T1'', \<lparr>tote_id = ''T1'', title = ''Tools'', location = ''Garage'', qrdata = Some ''qr-T1'',
         items = [\<lparr>item_title = ''Hammer'', description = ''steel'', quantity = 2, image_url = None\<rparr>],
         parent_id = None, children = [''T2'']\<rparr>),
      (''T2'', \<lparr>tote_id = ''T2'', title = ''Screws'', location = ''Shelf'', qrdata = None,
         items = [\<lparr>item_title = ''Screw'', description = [], quantity = 1,
                    image_url = Some ''http://h/s.png''\<rparr>,
                  \<lparr>item_title = ''Bolt'', description = [], quantity = 1, image_url = None\<rparr>],
         parent_id = Some ''T1'', children = []\<rparr>),
      (''T3'', \<lparr>tote_id = ''T3'', title = ''Spare'', location = ''Attic'', qrdata = None,
         items = [\<lparr>item_title = ''Tape'', description = [], quantity = 1, image_url = None\<rparr>],
         parent_id = Some ''T9'', children = []\<rparr>)]"

text \<open>
  A primary header whose \<open>PARENT TOTE ID\<close> and \<open>TOTE TITLE\<close> cells carry a space: it is
  recognised as a primary header, and the mapping built from it lacks the two names.
\<close>

definition spaced_header :: row where
  "spaced_header = [''PROFILE'', ''TOTE ID'', '' PARENT TOTE ID'', ''QRDATA'', ''TOTE LOCATION'',
     ''TOTE TITLE '', ''ITEM TITLE'', ''ITEM DESCRIPTION'', ''UPC'', ''ITEM QUANTITY'', ''IMAGES'',
     ''CREATED'', ''UPDATED'', ''ITEM URL'']"

definition spaced_row :: row where
  "spaced_row = [''P1'', ''T5'', ''T4'', '''', ''Attic'', ''Box'', ''Lamp'', '''', '''', ''2'', '''', '''', '''', '''']"

text \<open>A model in which the container of that row exists already, without a title.\<close>

definition stock :: totes where
  "stock =
     [(''T5'', \<lparr>tote_id = ''T5'', title = [], location = ''Cellar'', qrdata = None,
         items = [\<lparr>item_title = ''Bulb'', description = [], quantity = 3, image_url = None\<rparr>],
         parent_id = Some ''T1'', children = []\<rparr>)]"

chapter \<open>Properties\<close>

section \<open>Quantities of items\<close>

lemma py_int_blank: "py_int [] = None" "py_int '' '' = None"
  by (simp_all add: py_int_def int_space_def)

text \<open>
  C3, as the code has it. An item added by \<open>add_item\<close> stores the integer that \<open>int\<close>
  reads from the quantity field, whatever its sign: nothing checks that it is positive.
  When the field is missing, empty, or not parseable as an integer, the stored quantity
  is exactly 1. (Nothing is added when title and description are both empty.)
\<close>

theorem add_item_quantity:
  assumes "ttl \<noteq> [] \<or> desc \<noteq> []"
  shows "\<exists>it. items (add_item t ttl desc q img) = items t @ [it] \<and>
           quantity it = (case q of None \<Rightarrow> 1
                          | Some s \<Rightarrow> (case py_int s of None \<Rightarrow> 1 | Some n \<Rightarrow> n))"
  using assms by (auto simp: add_item_def parse_qty_def py_int_blank split: option.splits)

theorem add_item_quantity_witness:
  "\<exists>it. items (add_item (new_tote ''T1'') ''Widget'' [] (Some ''-5'') None)
          = items (new_tote ''T1'') @ [it] \<and> quantity it = - 5"
proof -
  have h: "''Widget'' \<noteq> [] \<or> '''' \<noteq> []" by simp
  have p: "py_int ''-5'' = Some (- 5)" by code_simp
  show ?thesis
    using add_item_quantity [OF h, of "new_tote ''T1''" "Some ''-5''" None] p
    by simp
qed

text \<open>
  C3 as stated fails: the quantity field \<open>0\<close> is parseable and the stored quantity is 0,
  which is not positive.
\<close>

theorem add_item_quantity_zero:
  "quantity (last (items (add_item (new_tote ''T1'') ''Widget'' [] (Some ''0'') None))) = 0"
  by code_simp

section \<open>Ingestion: identifiers and links\<close>

lemma and_then_simps [simp]:
  "and_then (Inr v) f = f v" "and_then (Inl e) f = Inl e"
  by (simp_all add: and_then_def)

lemma and_then_Inr: "and_then x f = Inr y \<longleftrightarrow> (\<exists>v. x = Inr v \<and> f v = Inr y)"
  by (cases x) simp_all

lemma add_item_keeps: "tote_id (add_item t a b q i) = tote_id t" "children (add_item t a b q i) = children t"
  "title (add_item t a b q i) = title t" "location (add_item t a b q i) = location t"
  "qrdata (add_item t a b q i) = qrdata t" "parent_id (add_item t a b q i) = parent_id t"
  by (simp_all add: add_item_def)

lemma primary_fields_keeps:
  assumes "primary_fields hi r t = Inr t'"
  shows "tote_id t' = tote_id t \<and> children t' = children t \<and>
         (parent_id t \<noteq> Some [] \<longrightarrow> parent_id t' \<noteq> Some [])"
  using assms unfolding primary_fields_def 
  by (auto simp: and_then_Inr Let_def add_item_keeps split: if_splits)

lemma set_update_subset: "set (AList.update k v ts) \<subseteq> insert (k, v) (set ts)"
  by (induction ts) auto

lemma wf_update:
  assumes "wf_totes ts" "tote_id v = k" "children v = []" "parent_id v \<noteq> Some []"
  shows "wf_totes (AList.update k v ts)"
  using assms set_update_subset [of k v ts]
  unfolding wf_totes_def by (auto simp: distinct_update)

lemma wf_lookup:
  "wf_totes ts \<Longrightarrow> map_of ts k = Some t \<Longrightarrow> tote_id t = k \<and> children t = [] \<and> parent_id t \<noteq> Some []"
  unfolding wf_totes_def by (auto dest: map_of_SomeD)

lemma primary_row_wf:
  assumes wf: "wf_totes ts" and step: "primary_row hi r ts = Inr ts'"
  shows "wf_totes ts'"
proof (cases "hi ''TOTE ID''")
  case None
  with step wf show ?thesis by (simp add: primary_row_def)
next
  case (Some i)
  show ?thesis
  proof (cases "length r \<le> i")
    case True
    with Some step wf show ?thesis by (simp add: primary_row_def)
  next
    case False
    define t where "t = (case map_of ts (r ! i) of None \<Rightarrow> new_tote (r ! i) | Some t \<Rightarrow> t)"
    have t: "tote_id t = r ! i \<and> children t = [] \<and> parent_id t \<noteq> Some []"
      using wf_lookup [OF wf] by (auto simp: t_def new_tote_def split: option.splits)
    from step Some False obtain t' where f: "primary_fields hi r t = Inr t'"
      and ts': "ts' = AList.update (r ! i) t' ts"
      by (auto simp: primary_row_def Let_def and_then_Inr t_def)
    from primary_fields_keeps [OF f] t
    have "tote_id t' = r ! i" "children t' = []" "parent_id t' \<noteq> Some []" by simp_all
    with wf ts' show ?thesis by (simp add: wf_update)
  qed
qed

lemma empty_row_cases:
  assumes step: "empty_row hi r ts = Inr ts'"
  shows "ts' = ts \<or> (\<exists>i t t'. hi ''TOTE ID'' = Some i \<and> i < length r \<and> map_of ts (r ! i) = Some t \<and>
            ts' = AList.update (r ! i) t' ts \<and> tote_id t' = tote_id t \<and> children t' = children t \<and>
            parent_id t' = parent_id t)"
proof (cases "hi ''TOTE ID''")
  case None
  with step show ?thesis by (simp add: empty_row_def)
next
  case (Some i)
  show ?thesis
  proof (cases "i < length r")
    case False
    with Some step show ?thesis by (simp add: empty_row_def)
  next
    case True
    show ?thesis
    proof (cases "map_of ts (r ! i)")
      case None
      with Some True step show ?thesis by (simp add: empty_row_def)
    next
      case (Some t)
      with \<open>hi ''TOTE ID'' = Some i\<close> True step obtain ttl loc
        where "ts' = AList.update (r ! i) (t\<lparr>title := ttl, location := loc\<rparr>) ts"
        by (auto simp: empty_row_def and_then_Inr simp del: Tote.simps)
      moreover have "tote_id (t\<lparr>title := ttl, location := loc\<rparr>) = tote_id t"
        "children (t\<lparr>title := ttl, location := loc\<rparr>) = children t"
        "parent_id (t\<lparr>title := ttl, location := loc\<rparr>) = parent_id t" by simp_all
      ultimately show ?thesis using \<open>hi ''TOTE ID'' = Some i\<close> True Some by blast
    qed
  qed
qed

lemma empty_row_wf:
  assumes wf: "wf_totes ts" and step: "empty_row hi r ts = Inr ts'"
  shows "wf_totes ts'"
  using empty_row_cases [OF step] wf wf_lookup [OF wf]
  by (auto simp: wf_update)

lemma update_keys_present: "map_of ts k = Some v0 \<Longrightarrow> map fst (AList.update k v ts) = map fst ts"
  by (induction ts) (auto split: if_splits)

lemma empty_row_keys:
  assumes "empty_row hi r ts = Inr ts'"
  shows "map fst ts' = map fst ts"
  using assms unfolding empty_row_def
  by (auto simp: and_then_Inr update_keys_present split: option.splits if_splits)

lemma process_row_wf:
  assumes "wf_totes ts" "process_row r (m, hi, ts) = Inr (m', hi', ts')"
  shows "wf_totes ts'"
  using assms unfolding process_row_def
  by (auto simp: and_then_Inr split: if_splits dest: primary_row_wf empty_row_wf)

lemma process_rows_wf:
  assumes "wf_totes ts" "process_rows rs (m, hi, ts) = Inr (m', hi', ts')"
  shows "wf_totes ts'"
  using assms
proof (induction rs arbitrary: m hi ts)
  case Nil
  then show ?case by simp
next
  case (Cons r rs)
  then obtain m1 h1 ts1 where s: "process_row r (m, hi, ts) = Inr (m1, h1, ts1)"
    and rest: "process_rows rs (m1, h1, ts1) = Inr (m', hi', ts')"
    by (auto simp: and_then_Inr)
  from process_row_wf [OF Cons.prems(1) s] Cons.IH rest show ?case by blast
qed

lemma read_files_wf:
  assumes "wf_totes ts" "read_files fs ts = Inr ts'"
  shows "wf_totes ts'"
  using assms
proof (induction fs arbitrary: ts)
  case Nil
  then show ?case by simp
next
  case (Cons f fs)
  then obtain m1 h1 ts1 where s: "process_rows f (UNKNOWN, Map.empty, ts) = Inr (m1, h1, ts1)"
    and rest: "read_files fs ts1 = Inr ts'"
    by (auto simp: and_then_Inr)
  from process_rows_wf [OF Cons.prems(1) s] Cons.IH rest show ?case by blast
qed

lemma link_one_cases:
  "link_one t ts = ts \<or>
   (\<exists>p par. parent_id t = Some p \<and> p \<noteq> [] \<and> map_of ts p = Some par \<and>
      tote_id t \<notin> set (children par) \<and>
      link_one t ts = AList.update p (par\<lparr>children := children par @ [tote_id t]\<rparr>) ts)"
  by (auto simp: link_one_def split: option.splits)

lemma link_one_keys: "map fst (link_one t ts) = map fst ts"
  using link_one_cases [of t ts] by (auto simp: update_keys_present)

lemma fold_link_one_keys: "map fst (fold link_one xs ts) = map fst ts"
  by (induction xs arbitrary: ts) (simp_all add: link_one_keys)

lemma agree_refl: "agree ts ts"
  by (simp add: agree_def)

lemma link_one_agree:
  assumes "agree ts0 ts"
  shows "agree ts0 (link_one x ts)"
proof -
  from link_one_cases [of x ts] show ?thesis
  proof
    assume "link_one x ts = ts"
    with assms show ?thesis by simp
  next
    assume "\<exists>p par. parent_id x = Some p \<and> p \<noteq> [] \<and> map_of ts p = Some par \<and>
      tote_id x \<notin> set (children par) \<and>
      link_one x ts = AList.update p (par\<lparr>children := children par @ [tote_id x]\<rparr>) ts"
    then obtain p par where par: "map_of ts p = Some par"
      and eq: "link_one x ts = AList.update p (par\<lparr>children := children par @ [tote_id x]\<rparr>) ts"
      by blast
    show ?thesis
      unfolding agree_def eq update_conv'
    proof (intro allI impI)
      fix k t0
      assume "map_of ts0 k = Some t0"
      with assms obtain t where t: "map_of ts k = Some t" "parent_id t = parent_id t0"
        "tote_id t = tote_id t0"
        unfolding agree_def by blast
      show "\<exists>t. ((map_of ts)(p \<mapsto> par\<lparr>children := children par @ [tote_id x]\<rparr>)) k = Some t \<and>
             parent_id t = parent_id t0 \<and> tote_id t = tote_id t0"
        using t par by (cases "k = p") auto
    qed
  qed
qed

lemma link_one_linked:
  assumes l: "linked ts" and x: "map_of ts (tote_id x) = Some x'" "parent_id x' = parent_id x"
  shows "linked (link_one x ts)"
proof -
  from link_one_cases [of x ts] show ?thesis
  proof
    assume "link_one x ts = ts"
    with l show ?thesis by simp
  next
    assume "\<exists>p par. parent_id x = Some p \<and> p \<noteq> [] \<and> map_of ts p = Some par \<and>
      tote_id x \<notin> set (children par) \<and>
      link_one x ts = AList.update p (par\<lparr>children := children par @ [tote_id x]\<rparr>) ts"
    then obtain p par where px: "parent_id x = Some p" and par: "map_of ts p = Some par"
      and fresh: "tote_id x \<notin> set (children par)"
      and eq: "link_one x ts = AList.update p (par\<lparr>children := children par @ [tote_id x]\<rparr>) ts"
      by blast
    define par' where "par' = par\<lparr>children := children par @ [tote_id x]\<rparr>"
    have par': "tote_id par' = tote_id par" "parent_id par' = parent_id par"
      "children par' = children par @ [tote_id x]"
      by (simp_all add: par'_def)
    let ?m = "(map_of ts)(p \<mapsto> par')"
    have keep: "\<exists>t'. ?m ch = Some t' \<and> parent_id t' = parent_id t" if "map_of ts ch = Some t" for ch t
      using that par par' by (cases "ch = p") auto
    have "tote_id c = k \<and> distinct (children c) \<and>
          (\<forall>ch \<in> set (children c). \<exists>t. ?m ch = Some t \<and> parent_id t = Some k)"
      if c: "?m k = Some c" for k c
    proof (cases "k = p")
      case True
      with c have c': "c = par'" by simp
      from l par have lp: "tote_id par = p" "distinct (children par)"
        "\<forall>ch \<in> set (children par). \<exists>t. map_of ts ch = Some t \<and> parent_id t = Some p"
        unfolding linked_def by blast+
      have "\<exists>t. ?m ch = Some t \<and> parent_id t = Some p" if "ch \<in> set (children par')" for ch
      proof (cases "ch = tote_id x")
        case True
        from keep [OF x(1)] x(2) px True show ?thesis by simp
      next
        case False
        with that par'(3) have "ch \<in> set (children par)" by simp
        with lp(3) obtain t where "map_of ts ch = Some t" "parent_id t = Some p" by blast
        with keep [of ch t] show ?thesis by simp
      qed
      with lp fresh par' True c' show ?thesis by simp
    next
      case False
      with c have c': "map_of ts k = Some c" by simp
      with l have lk: "tote_id c = k" "distinct (children c)"
        "\<forall>ch \<in> set (children c). \<exists>t. map_of ts ch = Some t \<and> parent_id t = Some k"
        unfolding linked_def by blast+
      have "\<exists>t. ?m ch = Some t \<and> parent_id t = Some k" if "ch \<in> set (children c)" for ch
      proof -
        from lk(3) that obtain t where "map_of ts ch = Some t" "parent_id t = Some k" by blast
        with keep [of ch t] show ?thesis by simp
      qed
      with lk show ?thesis by simp
    qed
    then show ?thesis
      unfolding linked_def eq update_conv' par'_def by blast
  qed
qed

lemma fold_link_one_linked:
  assumes "linked ts" "agree ts0 ts" "\<forall>x \<in> set xs. map_of ts0 (tote_id x) = Some x"
  shows "linked (fold link_one xs ts) \<and> agree ts0 (fold link_one xs ts)"
  using assms
proof (induction xs arbitrary: ts)
  case Nil
  then show ?case by simp
next
  case (Cons x xs)
  from Cons.prems(3) have x0: "map_of ts0 (tote_id x) = Some x" by simp
  with Cons.prems(2) obtain x' where "map_of ts (tote_id x) = Some x'" "parent_id x' = parent_id x"
    unfolding agree_def by blast
  then have "linked (link_one x ts)" using Cons.prems(1) by (rule_tac link_one_linked)
  moreover have "agree ts0 (link_one x ts)" using Cons.prems(2) by (rule link_one_agree)
  ultimately show ?case using Cons.IH Cons.prems(3) by simp
qed

lemma wf_linked: "wf_totes ts \<Longrightarrow> linked ts"
  unfolding linked_def using wf_lookup by fastforce

lemma wf_snapshot:
  assumes "wf_totes ts"
  shows "\<forall>x \<in> set (map snd ts). map_of ts (tote_id x) = Some x"
  using assms unfolding wf_totes_def by fastforce

lemma build_links_linked:
  assumes "wf_totes ts"
  shows "linked (build_links ts) \<and> agree ts (build_links ts) \<and> map fst (build_links ts) = map fst ts"
  unfolding build_links_def
  using fold_link_one_linked [OF wf_linked [OF assms] agree_refl wf_snapshot [OF assms]]
  by (simp add: fold_link_one_keys)

lemma link_one_reached_self: "reached x (link_one x ts)"
  unfolding reached_def link_one_def
  by (auto simp: update_conv' split: option.splits)

lemma link_one_reached_keep:
  assumes "reached x ts"
  shows "reached x (link_one y ts)"
  using link_one_cases [of y ts] assms
  unfolding reached_def
  by (auto simp: update_conv' split: if_splits)

lemma fold_reached_keep: "reached x ts \<Longrightarrow> reached x (fold link_one xs ts)"
  by (induction xs arbitrary: ts) (simp_all add: link_one_reached_keep)

lemma fold_reached_all: "\<forall>x \<in> set xs. reached x (fold link_one xs ts)"
  by (induction xs arbitrary: ts) (simp_all add: fold_reached_keep link_one_reached_self)

lemma read_files_wf_start:
  assumes "read_files files [] = Inr ts0"
  shows "wf_totes ts0"
  using read_files_wf [OF _ assms] by (simp add: wf_totes_def)

lemma read_csvs_split:
  assumes "read_csvs files = Inr ts"
  obtains ts0 where "read_files files [] = Inr ts0" "ts = build_links ts0"
  using assms by (auto simp: read_csvs_def and_then_Inr)

section \<open>Identifiers of containers\<close>

text \<open>
  C1, as the code has it. In the model that \<open>read_csvs\<close> returns, the keys are distinct
  and every Container is stored under its own id; the id may be the empty string, since
  nothing checks the \<open>TOTE ID\<close> cell of a row that has another non-blank cell. No
  Container is created by a row handled in the \<open>EMPTY\<close> state: such a row leaves the keys
  of the model as they are, and when its container id is not a key of the model it leaves
  the model unchanged.
\<close>

theorem read_csvs_ids:
  "(read_csvs files = Inr ts \<longrightarrow>
      distinct (map fst ts) \<and> (\<forall>(k, t) \<in> set ts. tote_id t = k)) \<and>
   (process_row r (EMPTY, hi, ts0) = Inr (m', hi', ts') \<longrightarrow>
      map fst ts' = map fst ts0 \<and>
      ((\<forall>i. hi ''TOTE ID'' = Some i \<longrightarrow> i < length r \<longrightarrow> map_of ts0 (r ! i) = None) \<longrightarrow> ts' = ts0))"
proof (intro conjI impI)
  assume "read_csvs files = Inr ts"
  then obtain ts1 where ts1: "read_files files [] = Inr ts1" and ts: "ts = build_links ts1"
    by (rule read_csvs_split)
  from build_links_linked [OF read_files_wf_start [OF ts1]] ts
  have l: "linked ts" and k: "map fst ts = map fst ts1" by simp_all
  from read_files_wf_start [OF ts1] k show d: "distinct (map fst ts)"
    by (simp add: wf_totes_def)
  from l d show "\<forall>(k, t) \<in> set ts. tote_id t = k"
    unfolding linked_def by auto
next
  assume s: "process_row r (EMPTY, hi, ts0) = Inr (m', hi', ts')"
  then have "ts' = ts0 \<or> empty_row hi r ts0 = Inr ts'"
    by (auto simp: process_row_def and_then_Inr split: if_splits)
  then show "map fst ts' = map fst ts0"
    using empty_row_keys by blast
  assume absent: "\<forall>i. hi ''TOTE ID'' = Some i \<longrightarrow> i < length r \<longrightarrow> map_of ts0 (r ! i) = None"
  from \<open>ts' = ts0 \<or> empty_row hi r ts0 = Inr ts'\<close> show "ts' = ts0"
  proof
    assume "empty_row hi r ts0 = Inr ts'"
    from empty_row_cases [OF this] absent show ?thesis by auto
  qed
qed

theorem read_csvs_ids_witness:
  "read_csvs [sample_file] = Inr sample_model \<and>
   distinct (map fst sample_model) \<and>
   list_all (\<lambda>(k, t). tote_id t = k) sample_model \<and>
   process_row [''p'', ''T7'', ''Attic'', ''Spare''] (EMPTY, header_of EMPTY_HEADER, sample_model)
     = Inr (EMPTY, header_of EMPTY_HEADER, sample_model)"
proof -
  let ?r = "[''p'', ''T7'', ''Attic'', ''Spare'']"
  have e: "read_csvs [sample_file] = Inr sample_model" by code_simp
  have b: "\<not> blank ?r" "\<not> marker ?r" "sniff_headers ?r = UNKNOWN" by code_simp+
  have er: "empty_row (header_of EMPTY_HEADER) ?r sample_model = Inr sample_model" by code_simp
  have s: "process_row ?r (EMPTY, header_of EMPTY_HEADER, sample_model)
             = Inr (EMPTY, header_of EMPTY_HEADER, sample_model)"
    by (simp add: process_row_def b er)
  have a: "\<forall>i. header_of EMPTY_HEADER ''TOTE ID'' = Some i \<longrightarrow> i < length ?r \<longrightarrow>
             map_of sample_model (?r ! i) = None"
    by (simp add: header_of_def EMPTY_HEADER_def sample_model_def)
  from read_csvs_ids [of "[sample_file]" sample_model ?r "header_of EMPTY_HEADER" sample_model
      EMPTY "header_of EMPTY_HEADER" sample_model] e s a
  show ?thesis by (simp add: list_all_iff)
qed

text \<open>
  C1 as stated fails: a \<open>PRIMARY\<close> data row whose \<open>TOTE ID\<close> cell is empty creates a
  Container whose id is the empty string.
\<close>

theorem read_csvs_empty_id:
  "read_csvs [[PRIMARY_HEADER,
      [''p'', '''', '''', '''', '''', ''Loose'', ''Widget'', '''', '''', ''1'', '''', '''', '''', '''']]]
   = Inr [('''', \<lparr>tote_id = '''', title = ''Loose'', location = '''', qrdata = None,
             items = [\<lparr>item_title = ''Widget'', description = '''', quantity = 1, image_url = None\<rparr>],
             parent_id = None, children = []\<rparr>)]"
  by code_simp

section \<open>Parent and child links\<close>

text \<open>
  C7. After \<open>read_csvs\<close>: linking adds no Container (the keys are those read from the
  rows, so a parent id that matches no Container gives no placeholder and no link); the
  children of a Container are distinct, and each of them is a Container of the model whose
  parent id is this Container's id. Every Container whose parent exists is among the
  children of that parent.
\<close>

theorem read_csvs_links:
  assumes "read_csvs files = Inr ts"
  shows "(\<exists>ts0. read_files files [] = Inr ts0 \<and> map fst ts = map fst ts0) \<and>
         (\<forall>(k, c) \<in> set ts. distinct (children c) \<and>
            (\<forall>ch \<in> set (children c). \<exists>t. map_of ts ch = Some t \<and> parent_id t = Some k)) \<and>
         (\<forall>(k, t) \<in> set ts. \<forall>p par. parent_id t = Some p \<longrightarrow> map_of ts p = Some par \<longrightarrow>
            k \<in> set (children par))"
proof -
  from assms obtain ts0 where ts0: "read_files files [] = Inr ts0" and ts: "ts = build_links ts0"
    by (rule read_csvs_split)
  note wf = read_files_wf_start [OF ts0]
  from build_links_linked [OF wf] ts
  have l: "linked ts" and a: "agree ts0 ts" and k: "map fst ts = map fst ts0" by simp_all
  from wf k have d: "distinct (map fst ts)" by (simp add: wf_totes_def)
  have one: "\<exists>ts0. read_files files [] = Inr ts0 \<and> map fst ts = map fst ts0"
    using ts0 k by blast
  have two: "\<forall>(k, c) \<in> set ts. distinct (children c) \<and>
            (\<forall>ch \<in> set (children c). \<exists>t. map_of ts ch = Some t \<and> parent_id t = Some k)"
    using l d unfolding linked_def by auto
  have three: "k \<in> set (children par)"
    if kt: "(k, t) \<in> set ts" and p: "parent_id t = Some p" and par: "map_of ts p = Some par"
    for k t p par
  proof -
    from kt d have mk: "map_of ts k = Some t" by simp
    from kt k have "k \<in> fst ` set ts0" by (metis fst_conv image_eqI set_map)
    then obtain t0 where t0: "(k, t0) \<in> set ts0" by auto
    with wf have m0: "map_of ts0 k = Some t0" by (simp add: wf_totes_def)
    from wf_lookup [OF wf m0] have id0: "tote_id t0 = k" "parent_id t0 \<noteq> Some []" by simp_all
    from a m0 mk have pp: "parent_id t0 = parent_id t" unfolding agree_def by fastforce
    from t0 have "t0 \<in> set (map snd ts0)" by force
    with fold_reached_all [of "map snd ts0" ts0] have "reached t0 (fold link_one (map snd ts0) ts0)"
      by blast
    with ts have "reached t0 ts" by (simp add: build_links_def)
    with pp p par id0 show ?thesis unfolding reached_def by auto
  qed
  from one two three show ?thesis by blast
qed

theorem read_csvs_links_witness:
  "read_csvs [sample_file] = Inr sample_model \<and>
   (\<exists>ts0. read_files [sample_file] [] = Inr ts0 \<and> map fst sample_model = map fst ts0) \<and>
   list_all (\<lambda>(k, c). distinct (children c) \<and>
      list_all (\<lambda>ch. \<exists>t. map_of sample_model ch = Some t \<and> parent_id t = Some k) (children c))
     sample_model \<and>
   list_all (\<lambda>(k, t). \<forall>p par. parent_id t = Some p \<longrightarrow> map_of sample_model p = Some par \<longrightarrow>
      k \<in> set (children par)) sample_model"
proof -
  have e: "read_csvs [sample_file] = Inr sample_model" by code_simp
  from read_csvs_links [OF e] e show ?thesis by (simp add: list_all_iff)
qed

section \<open>First write wins, last parent wins\<close>

lemma first_nonempty_Cons:
  "first_nonempty (v # vs) = (if v \<noteq> [] then Some v else first_nonempty vs)"
  by (simp add: first_nonempty_def)

lemma last_nonempty_Cons:
  "last_nonempty (v # vs) =
     (case last_nonempty vs of None \<Rightarrow> (if v \<noteq> [] then Some v else None) | Some w \<Rightarrow> Some w)"
  by (auto simp: last_nonempty_def split: list.splits)

lemma cell_field: "cell hi r name = Inr v \<Longrightarrow> field hi r name = v"
  by (simp add: field_def)

lemma primary_fields_result:
  assumes "primary_fields hi r t = Inr t'"
  shows "title t' = (if title t \<noteq> [] then title t else field hi r ''TOTE TITLE'') \<and>
         location t' = (if location t \<noteq> [] then location t else field hi r ''TOTE LOCATION'') \<and>
         qrdata t' = (if qrdata t \<noteq> None \<and> qrdata t \<noteq> Some [] then qrdata t
                      else first_nonempty [field hi r ''QRDATA'']) \<and>
         parent_id t' = (if parent_cell hi r \<noteq> [] then Some (parent_cell hi r) else parent_id t)"
proof -
  from assms obtain ttl loc qr a b c d where
    ttl: "(if title t \<noteq> [] then Inr (title t) else cell hi r ''TOTE TITLE'') = Inr ttl" and
    loc: "(if location t \<noteq> [] then Inr (location t) else cell hi r ''TOTE LOCATION'') = Inr loc" and
    qr: "(if qrdata t \<noteq> None \<and> qrdata t \<noteq> Some [] then Inr (qrdata t)
          else and_then (cell hi r ''QRDATA'') (\<lambda>q. Inr (if q \<noteq> [] then Some q else None))) = Inr qr" and
    t': "t' = add_item (t\<lparr>title := ttl, location := loc, qrdata := qr,
                parent_id := (if parent_cell hi r \<noteq> [] then Some (parent_cell hi r) else parent_id t)\<rparr>)
              a b c d"
    unfolding primary_fields_def Let_def and_then_Inr by blast
  have 1: "ttl = (if title t \<noteq> [] then title t else field hi r ''TOTE TITLE'')"
    using ttl by (auto simp: cell_field split: if_splits)
  have 2: "loc = (if location t \<noteq> [] then location t else field hi r ''TOTE LOCATION'')"
    using loc by (auto simp: cell_field split: if_splits)
  have 3: "qr = (if qrdata t \<noteq> None \<and> qrdata t \<noteq> Some [] then qrdata t
                 else first_nonempty [field hi r ''QRDATA''])"
    using qr by (cases "qrdata t") (auto simp: cell_field and_then_Inr first_nonempty_def split: if_splits)
  show ?thesis
    unfolding t' add_item_keeps using 1 2 3 by simp
qed

lemma primary_row_same:
  assumes "primary_row hi r ts = Inr ts1" "hi ''TOTE ID'' = Some i" "i < length r"
  shows "\<exists>t1. map_of ts1 (r ! i) = Some t1 \<and>
           primary_fields hi r (case map_of ts (r ! i) of None \<Rightarrow> new_tote (r ! i) | Some t \<Rightarrow> t) = Inr t1"
  using assms by (auto simp: primary_row_def Let_def and_then_Inr update_conv')

lemma primary_row_other:
  assumes "primary_row hi r ts = Inr ts1" "hi ''TOTE ID'' = Some i" "\<not> (i < length r \<and> r ! i = k)"
  shows "map_of ts1 k = map_of ts k"
  using assms by (auto simp: primary_row_def Let_def and_then_Inr update_conv' split: if_splits)

lemma process_row_data:
  assumes "data_row r"
  shows "process_row r (PRIMARY, hi, ts) = and_then (primary_row hi r ts) (\<lambda>ts'. Inr (PRIMARY, hi, ts'))"
  using assms by (simp add: process_row_def data_row_def)

lemma first_nonempty_not_blank: "first_nonempty vs \<noteq> Some []"
  by (auto simp: first_nonempty_def split: list.splits dest: filter_eq_ConsD)

lemma settled_Nil: "settled hi t0 [] t0"
  by (simp add: settled_def first_nonempty_def last_nonempty_def or_empty_def)

lemma settled_Cons:
  assumes f: "primary_fields hi r t0 = Inr t1" and q: "qrdata t0 \<noteq> Some []"
    and s: "settled hi t1 rs t"
  shows "settled hi t0 (r # rs) t"
proof -
  note res = primary_fields_result [OF f]
  from s have t: 
      "title t = (if title t1 \<noteq> [] then title t1
                else or_empty (first_nonempty (map (\<lambda>r. field hi r ''TOTE TITLE'') rs)))"
      "location t = (if location t1 \<noteq> [] then location t1
                else or_empty (first_nonempty (map (\<lambda>r. field hi r ''TOTE LOCATION'') rs)))"
      "qrdata t = (if qrdata t1 \<noteq> None then qrdata t1
                else first_nonempty (map (\<lambda>r. field hi r ''QRDATA'') rs))"
      "parent_id t = (case last_nonempty (map (parent_cell hi) rs) of
                      None \<Rightarrow> parent_id t1 | Some p \<Rightarrow> Some p)"
    by (simp_all add: settled_def)
  have a: "title t = (if title t0 \<noteq> [] then title t0
              else or_empty (first_nonempty (map (\<lambda>r. field hi r ''TOTE TITLE'') (r # rs))))"
    using t(1) res by (simp add: first_nonempty_Cons or_empty_def)
  have b: "location t = (if location t0 \<noteq> [] then location t0
              else or_empty (first_nonempty (map (\<lambda>r. field hi r ''TOTE LOCATION'') (r # rs))))"
    using t(2) res by (simp add: first_nonempty_Cons or_empty_def)
  have c: "qrdata t = (if qrdata t0 \<noteq> None then qrdata t0
              else first_nonempty (map (\<lambda>r. field hi r ''QRDATA'') (r # rs)))"
    using t(3) res q by (cases "qrdata t0") (simp_all add: first_nonempty_Cons first_nonempty_def)
  have d: "parent_id t = (case last_nonempty (map (parent_cell hi) (r # rs)) of
                    None \<Rightarrow> parent_id t0 | Some p \<Rightarrow> Some p)"
    using t(4) res by (simp add: last_nonempty_Cons split: option.splits)
  from a b c d show ?thesis unfolding settled_def by blast
qed

lemma primary_fields_qr:
  assumes "primary_fields hi r t0 = Inr t1" "qrdata t0 \<noteq> Some []"
  shows "qrdata t1 \<noteq> Some []"
  using primary_fields_result [OF assms(1)] assms(2)
  by (auto simp: first_nonempty_not_blank split: if_splits)

lemma primary_rows_general:
  assumes "\<forall>r \<in> set rows. data_row r" and "hi ''TOTE ID'' = Some i"
    and "process_rows rows (PRIMARY, hi, ts) = Inr (m, hi', ts')"
    and "rows_of i k rows \<noteq> [] \<or> map_of ts k \<noteq> None"
    and "t0 = (case map_of ts k of None \<Rightarrow> new_tote k | Some t \<Rightarrow> t)"
    and "qrdata t0 \<noteq> Some []"
  shows "\<exists>t. map_of ts' k = Some t \<and> settled hi t0 (rows_of i k rows) t"
  using assms
proof (induction rows arbitrary: ts t0)
  case Nil
  then show ?case by (auto simp: rows_of_def settled_Nil)
next
  case (Cons r rs)
  from Cons.prems(1) have dr: "data_row r" and drs: "\<forall>r \<in> set rs. data_row r" by simp_all
  from Cons.prems(3) dr obtain ts1 where
    step: "primary_row hi r ts = Inr ts1" and
    rest: "process_rows rs (PRIMARY, hi, ts1) = Inr (m, hi', ts')"
    by (auto simp: process_row_data and_then_Inr)
  show ?case
  proof (cases "i < length r \<and> r ! i = k")
    case True
    then have rk: "rows_of i k (r # rs) = r # rows_of i k rs" by (simp add: rows_of_def)
    from primary_row_same [OF step Cons.prems(2)] True Cons.prems(5)
    obtain t1 where t1: "map_of ts1 k = Some t1" and f: "primary_fields hi r t0 = Inr t1"
      by auto
    have q1: "qrdata t1 \<noteq> Some []" using f Cons.prems(6) by (rule primary_fields_qr)
    have p4: "rows_of i k rs \<noteq> [] \<or> map_of ts1 k \<noteq> None" using t1 by simp
    have p5: "t1 = (case map_of ts1 k of None \<Rightarrow> new_tote k | Some t \<Rightarrow> t)" using t1 by simp
    from Cons.IH [OF drs Cons.prems(2) rest p4 p5 q1]
    obtain t where t: "map_of ts' k = Some t" "settled hi t1 (rows_of i k rs) t" by blast
    from settled_Cons [OF f Cons.prems(6) t(2)] t(1) rk show ?thesis by auto
  next
    case False
    then have rk: "rows_of i k (r # rs) = rows_of i k rs" by (auto simp: rows_of_def)
    from primary_row_other [OF step Cons.prems(2) False] have same: "map_of ts1 k = map_of ts k" .
    have p4: "rows_of i k rs \<noteq> [] \<or> map_of ts1 k \<noteq> None" using Cons.prems(4) rk same by simp
    have p5: "t0 = (case map_of ts1 k of None \<Rightarrow> new_tote k | Some t \<Rightarrow> t)"
      using Cons.prems(5) same by simp
    from Cons.IH [OF drs Cons.prems(2) rest p4 p5 Cons.prems(6)] rk
    show ?thesis by simp
  qed
qed

text \<open>
  C2. Take the data rows of a \<open>PRIMARY\<close> section (header mapping \<open>hi\<close>, \<open>TOTE ID\<close> in
  column \<open>i\<close>) and a container id \<open>k\<close> that is new to the model and that some row names.
  When the rows are read without an exception, the Container \<open>k\<close> has as title, location
  and QR payload the first non-empty value that the rows naming \<open>k\<close> show for that field
  (the empty string or \<open>None\<close> when there is none), and as parent id the last non-empty
  parent-id value of those rows.
\<close>

theorem primary_rows_fields:
  assumes "\<forall>r \<in> set rows. data_row r" and "hi ''TOTE ID'' = Some i"
    and "process_rows rows (PRIMARY, hi, ts) = Inr (m, hi', ts')"
    and "rows_of i k rows \<noteq> []" and "map_of ts k = None"
  shows "\<exists>t. map_of ts' k = Some t \<and>
     title t = or_empty (first_nonempty (map (\<lambda>r. field hi r ''TOTE TITLE'') (rows_of i k rows))) \<and>
     location t = or_empty (first_nonempty (map (\<lambda>r. field hi r ''TOTE LOCATION'') (rows_of i k rows))) \<and>
     qrdata t = first_nonempty (map (\<lambda>r. field hi r ''QRDATA'') (rows_of i k rows)) \<and>
     parent_id t = last_nonempty (map (parent_cell hi) (rows_of i k rows))"
proof -
  have p5: "new_tote k = (case map_of ts k of None \<Rightarrow> new_tote k | Some t \<Rightarrow> t)"
    using assms(5) by simp
  have p4: "rows_of i k rows \<noteq> [] \<or> map_of ts k \<noteq> None" using assms(4) by simp
  have p6: "qrdata (new_tote k) \<noteq> Some []" by (simp add: new_tote_def)
  from primary_rows_general [OF assms(1,2,3) p4 p5 p6]
  obtain t where "map_of ts' k = Some t" "settled hi (new_tote k) (rows_of i k rows) t" by blast
  then show ?thesis
    by (auto simp: settled_def new_tote_def split: option.splits)
qed

theorem primary_rows_fields_witness:
  "\<exists>m h ts'. process_rows sample_rows (PRIMARY, header_of PRIMARY_HEADER, []) = Inr (m, h, ts') \<and>
     (\<exists>t. map_of ts' ''T2'' = Some t \<and> title t = ''Screws'' \<and> location t = ''Shelf'' \<and>
          qrdata t = None \<and> parent_id t = Some ''T1'')"
proof -
  let ?hi = "header_of PRIMARY_HEADER"
  have "\<not> isl (process_rows sample_rows (PRIMARY, ?hi, []))" by code_simp
  then obtain m h ts' where st: "process_rows sample_rows (PRIMARY, ?hi, []) = Inr (m, h, ts')"
    by (cases "process_rows sample_rows (PRIMARY, ?hi, [])") auto
  have d: "\<forall>r \<in> set sample_rows. data_row r" by code_simp
  have i: "?hi ''TOTE ID'' = Some 1" by code_simp
  have k: "rows_of 1 ''T2'' sample_rows \<noteq> []" by code_simp
  have n: "map_of ([] :: totes) ''T2'' = None" by simp
  have v: "or_empty (first_nonempty (map (\<lambda>r. field ?hi r ''TOTE TITLE'') (rows_of 1 ''T2'' sample_rows)))
             = ''Screws''"
    "or_empty (first_nonempty (map (\<lambda>r. field ?hi r ''TOTE LOCATION'') (rows_of 1 ''T2'' sample_rows)))
             = ''Shelf''"
    "first_nonempty (map (\<lambda>r. field ?hi r ''QRDATA'') (rows_of 1 ''T2'' sample_rows)) = None"
    "last_nonempty (map (parent_cell ?hi) (rows_of 1 ''T2'' sample_rows)) = Some ''T1''"
    by code_simp+
  from primary_rows_fields [OF d i st k n] st show ?thesis
    unfolding v by blast
qed

section \<open>Columns missing from the header mapping\<close>

lemma field_default:
  assumes "hi name = None" "r \<noteq> []"
  shows "field hi r name = strip (r ! 0)"
  using assms by (simp add: field_def cell_def)

lemma items_add_item:
  "items t1 = items t \<Longrightarrow> items (add_item t1 a b q i) = items (add_item t a b q i)"
  by (simp add: add_item_def)

lemma primary_fields_items:
  assumes "primary_fields hi r t = Inr t'"
  shows "items t' = items (add_item t (field hi r ''ITEM TITLE'') (field hi r ''ITEM DESCRIPTION'')
            (Some (field hi r ''ITEM QUANTITY''))
            (if field hi r ''IMAGES'' \<noteq> [] then first_image (field hi r ''IMAGES'') else None))"
proof -
  from assms obtain ttl loc qr a b c d where
    c: "cell hi r ''ITEM TITLE'' = Inr a" "cell hi r ''ITEM DESCRIPTION'' = Inr b"
       "cell hi r ''ITEM QUANTITY'' = Inr c" "cell hi r ''IMAGES'' = Inr d" and
    t': "t' = add_item (t\<lparr>title := ttl, location := loc, qrdata := qr,
                parent_id := (if parent_cell hi r \<noteq> [] then Some (parent_cell hi r) else parent_id t)\<rparr>)
              a b (Some c) (if d \<noteq> [] then first_image d else None)"
    unfolding primary_fields_def Let_def and_then_Inr by blast
  define t1 where "t1 = t\<lparr>title := ttl, location := loc, qrdata := qr,
                parent_id := (if parent_cell hi r \<noteq> [] then Some (parent_cell hi r) else parent_id t)\<rparr>"
  have t1: "items t1 = items t" by (simp add: t1_def)
  from t' have t': "t' = add_item t1 a b (Some c) (if d \<noteq> [] then first_image d else None)"
    by (simp add: t1_def)
  from c have "field hi r ''ITEM TITLE'' = a" "field hi r ''ITEM DESCRIPTION'' = b"
    "field hi r ''ITEM QUANTITY'' = c" "field hi r ''IMAGES'' = d"
    by (simp_all add: cell_field)
  with t' items_add_item [OF t1] show ?thesis by simp
qed

lemma primary_row_skip:
  assumes "hi ''TOTE ID'' = None \<or> (\<exists>i. hi ''TOTE ID'' = Some i \<and> length r \<le> i)"
  shows "primary_row hi r ts = Inr ts"
  using assms by (auto simp: primary_row_def)

lemma primary_row_fields:
  assumes "hi ''TOTE ID'' = Some i" "i < length r" "primary_row hi r ts = Inr ts'"
  obtains t where
    "primary_fields hi r (case map_of ts (r ! i) of None \<Rightarrow> new_tote (r ! i) | Some t \<Rightarrow> t) = Inr t"
    "ts' = AList.update (r ! i) t ts"
  using assms by (auto simp: primary_row_def Let_def and_then_Inr)

lemma primary_row_effect:
  assumes i: "hi ''TOTE ID'' = Some i" "i < length r" and step: "primary_row hi r ts = Inr ts'"
    and t0: "t0 = (case map_of ts (r ! i) of None \<Rightarrow> new_tote (r ! i) | Some t \<Rightarrow> t)"
  shows "\<exists>t. ts' = AList.update (r ! i) t ts \<and>
          tote_id t = tote_id t0 \<and> children t = children t0 \<and>
          title t = (if title t0 \<noteq> [] then title t0 else field hi r ''TOTE TITLE'') \<and>
          location t = (if location t0 \<noteq> [] then location t0 else field hi r ''TOTE LOCATION'') \<and>
          qrdata t = (if qrdata t0 \<noteq> None \<and> qrdata t0 \<noteq> Some [] then qrdata t0
                      else first_nonempty [field hi r ''QRDATA'']) \<and>
          parent_id t = (if parent_cell hi r \<noteq> [] then Some (parent_cell hi r) else parent_id t0) \<and>
          items t = items (add_item t0
            (field hi r ''ITEM TITLE'') (field hi r ''ITEM DESCRIPTION'')
            (Some (field hi r ''ITEM QUANTITY''))
            (if field hi r ''IMAGES'' \<noteq> [] then first_image (field hi r ''IMAGES'') else None)) \<and>
          (\<forall>name. hi name = None \<longrightarrow> field hi r name = strip (r ! 0)) \<and>
          (hi ''PARENT TOTE ID'' = None \<longrightarrow> parent_id t = parent_id t0)"
proof -
  from primary_row_fields [OF i step] t0
  obtain t where f: "primary_fields hi r t0 = Inr t" and u: "ts' = AList.update (r ! i) t ts"
    by metis
  from i have ne: "r \<noteq> []" by auto
  note res = primary_fields_result [OF f]
  note keep = primary_fields_keeps [OF f]
  have 1: "tote_id t = tote_id t0" using keep by (rule conjunct1)
  have 2: "children t = children t0" using keep by simp
  have 3: "title t = (if title t0 \<noteq> [] then title t0 else field hi r ''TOTE TITLE'')"
    using res by (rule conjunct1)
  have 4: "location t = (if location t0 \<noteq> [] then location t0 else field hi r ''TOTE LOCATION'')"
    using res by simp
  have 5: "qrdata t = (if qrdata t0 \<noteq> None \<and> qrdata t0 \<noteq> Some [] then qrdata t0
                      else first_nonempty [field hi r ''QRDATA''])"
    using res by simp
  have 6: "parent_id t = (if parent_cell hi r \<noteq> [] then Some (parent_cell hi r) else parent_id t0)"
    using res by simp
  note 7 = primary_fields_items [OF f]
  have 8: "\<forall>name. hi name = None \<longrightarrow> field hi r name = strip (r ! 0)"
    using ne by (simp add: field_default)
  have 9: "hi ''PARENT TOTE ID'' = None \<longrightarrow> parent_id t = parent_id t0"
    using 6 by (simp add: parent_cell_def)
  show ?thesis
    apply (rule exI [of _ t])
    apply (intro conjI)
             apply (rule u)
            apply (rule 1)
           apply (rule 2)
          apply (rule 3)
         apply (rule 4)
        apply (rule 5)
       apply (rule 6)
      apply (rule 7)
     apply (rule 8)
    apply (rule 9)
    done
qed

text \<open>
  C10, as the code has it. In \<open>PRIMARY\<close> mode a data row is skipped exactly when the
  \<open>TOTE ID\<close> column cannot be resolved (the name is not in the mapping, or the row is too
  short for its column): the model is then unchanged. Every other row that does not raise
  is carried out, whether its Container is new or not: the Container \<open>t0\<close> it names (a new
  one when the model has none) is replaced by a Container \<open>t\<close> that keeps the title,
  location and QR payload already set and takes the others from the row, takes the parent
  id of the row when that is not empty, and has the item of the row added. Each of
  \<open>TOTE TITLE\<close>, \<open>TOTE LOCATION\<close>, \<open>QRDATA\<close>, \<open>ITEM TITLE\<close>, \<open>ITEM DESCRIPTION\<close>,
  \<open>ITEM QUANTITY\<close> and \<open>IMAGES\<close> whose name is not in the mapping shows the (stripped) first
  cell of the row as its value. \<open>PARENT TOTE ID\<close> is the exception: when its name is not
  in the mapping, the parent id stays as it was.
\<close>

theorem primary_row_defaults:
  "((hi ''TOTE ID'' = None \<or> (\<exists>i. hi ''TOTE ID'' = Some i \<and> length r \<le> i)) \<longrightarrow>
      primary_row hi r ts = Inr ts) \<and>
   (\<forall>i ts' t0. hi ''TOTE ID'' = Some i \<longrightarrow> i < length r \<longrightarrow> primary_row hi r ts = Inr ts' \<longrightarrow>
      t0 = (case map_of ts (r ! i) of None \<Rightarrow> new_tote (r ! i) | Some t \<Rightarrow> t) \<longrightarrow>
        (\<exists>t. ts' = AList.update (r ! i) t ts \<and>
          tote_id t = tote_id t0 \<and> children t = children t0 \<and>
          title t = (if title t0 \<noteq> [] then title t0 else field hi r ''TOTE TITLE'') \<and>
          location t = (if location t0 \<noteq> [] then location t0 else field hi r ''TOTE LOCATION'') \<and>
          qrdata t = (if qrdata t0 \<noteq> None \<and> qrdata t0 \<noteq> Some [] then qrdata t0
                      else first_nonempty [field hi r ''QRDATA'']) \<and>
          parent_id t = (if parent_cell hi r \<noteq> [] then Some (parent_cell hi r) else parent_id t0) \<and>
          items t = items (add_item t0
            (field hi r ''ITEM TITLE'') (field hi r ''ITEM DESCRIPTION'')
            (Some (field hi r ''ITEM QUANTITY''))
            (if field hi r ''IMAGES'' \<noteq> [] then first_image (field hi r ''IMAGES'') else None)) \<and>
          (\<forall>name. hi name = None \<longrightarrow> field hi r name = strip (r ! 0)) \<and>
          (hi ''PARENT TOTE ID'' = None \<longrightarrow> parent_id t = parent_id t0)))"
  apply (rule conjI)
   apply (rule impI)
   apply (erule primary_row_skip)
  apply (intro allI impI)
  apply (erule (3) primary_row_effect)
  done

theorem primary_row_defaults_witness:
  "\<exists>ts'. primary_row (header_of spaced_header) spaced_row stock = Inr ts' \<and>
     (\<exists>t. ts' = AList.update ''T5'' t stock \<and> title t = ''P1'' \<and> location t = ''Cellar'' \<and>
          parent_id t = Some ''T1'' \<and>
          items t = [\<lparr>item_title = ''Bulb'', description = [], quantity = 3, image_url = None\<rparr>,
                     \<lparr>item_title = ''Lamp'', description = [], quantity = 2, image_url = None\<rparr>])"
proof -
  let ?hi = "header_of spaced_header"
  let ?t0 = "case map_of stock (spaced_row ! 1) of None \<Rightarrow> new_tote (spaced_row ! 1) | Some t \<Rightarrow> t"
  have "\<not> isl (primary_row ?hi spaced_row stock)" by code_simp
  then obtain ts' where st: "primary_row ?hi spaced_row stock = Inr ts'"
    by (cases "primary_row ?hi spaced_row stock") auto
  have i: "?hi ''TOTE ID'' = Some 1" "1 < length spaced_row" by code_simp+
  have v: "spaced_row ! 1 = ''T5''" "strip (spaced_row ! 0) = ''P1''" by code_simp+
  have a: "?hi ''TOTE TITLE'' = None" "?hi ''PARENT TOTE ID'' = None" by code_simp+
  let ?t5 = "case map_of stock ''T5'' of None \<Rightarrow> new_tote ''T5'' | Some t \<Rightarrow> t"
  have z: "title ?t5 = []" "location ?t5 = ''Cellar''" "parent_id ?t5 = Some ''T1''" by code_simp+
  have it: "items (add_item ?t0
            (field ?hi spaced_row ''ITEM TITLE'') (field ?hi spaced_row ''ITEM DESCRIPTION'')
            (Some (field ?hi spaced_row ''ITEM QUANTITY''))
            (if field ?hi spaced_row ''IMAGES'' \<noteq> [] then first_image (field ?hi spaced_row ''IMAGES'')
             else None))
          = [\<lparr>item_title = ''Bulb'', description = [], quantity = 3, image_url = None\<rparr>,
             \<lparr>item_title = ''Lamp'', description = [], quantity = 2, image_url = None\<rparr>]"
    by code_simp
  note c = primary_row_defaults [of ?hi spaced_row stock, THEN conjunct2]
  note s1 = c [THEN spec, of 1, THEN spec, of ts', THEN spec, of ?t0,
      THEN mp, OF i(1), THEN mp, OF i(2), THEN mp, OF st, THEN mp, OF refl]
  from s1 obtain t where t: "ts' = AList.update (spaced_row ! 1) t stock"
    "title t = (if title ?t0 \<noteq> [] then title ?t0 else field ?hi spaced_row ''TOTE TITLE'')"
    "location t = (if location ?t0 \<noteq> [] then location ?t0 else field ?hi spaced_row ''TOTE LOCATION'')"
    "items t = items (add_item ?t0
            (field ?hi spaced_row ''ITEM TITLE'') (field ?hi spaced_row ''ITEM DESCRIPTION'')
            (Some (field ?hi spaced_row ''ITEM QUANTITY''))
            (if field ?hi spaced_row ''IMAGES'' \<noteq> [] then first_image (field ?hi spaced_row ''IMAGES'')
             else None))"
    "\<forall>name. ?hi name = None \<longrightarrow> field ?hi spaced_row name = strip (spaced_row ! 0)"
    "?hi ''PARENT TOTE ID'' = None \<longrightarrow> parent_id t = parent_id ?t0"
    by (elim exE conjE) (rule that; assumption)
  from t(5) a(1) have f: "field ?hi spaced_row ''TOTE TITLE'' = strip (spaced_row ! 0)" by blast
  from t(1) have 1: "ts' = AList.update ''T5'' t stock" by (simp only: v)
  from t(2) have 2: "title t = ''P1''" by (simp only: v z f) simp
  from t(3) have 3: "location t = ''Cellar''" by (simp only: v z) simp
  from t(6) a(2) have 4: "parent_id t = Some ''T1''" by (simp only: v z)
  from t(4) have 5: "items t = [\<lparr>item_title = ''Bulb'', description = [], quantity = 3, image_url = None\<rparr>,
                     \<lparr>item_title = ''Lamp'', description = [], quantity = 2, image_url = None\<rparr>]"
    by (simp only: it)
  from st 1 2 3 4 5 show ?thesis by (intro exI conjI)
qed

text \<open>
  C10 as stated fails for \<open>PARENT TOTE ID\<close>: with that name missing from the mapping, the
  first cell \<open>P1\<close> of the row is not taken as the parent id; the Container has none.
\<close>

theorem parent_column_missing:
  "read_csvs [[spaced_header, spaced_row]]
   = Inr [(''T5'', \<lparr>tote_id = ''T5'', title = ''P1'', location = ''Attic'', qrdata = None,
             items = [\<lparr>item_title = ''Lamp'', description = '''', quantity = 2, image_url = None\<rparr>],
             parent_id = None, children = []\<rparr>)]"
  by code_simp

section \<open>Word wrap\<close>

lemma split_ws_word:
  assumes "\<forall>c \<in> set w. \<not> is_space c"
  shows "split_ws acc (w @ rest) = split_ws (acc @ w) rest"
  using assms by (induction w arbitrary: acc) simp_all

lemma space_is_space: "is_space CHR '' ''"
  by (simp add: is_space_def whitespace_def)

lemma split_ws_join:
  assumes "\<forall>w \<in> set ws. word w" "ws \<noteq> []"
  shows "split_ws [] (join ws) = ws"
  using assms
proof (induction ws rule: join.induct)
  case 1
  then show ?case by simp
next
  case (2 w)
  then have "\<forall>c \<in> set w. \<not> is_space c" "w \<noteq> []" by (simp_all add: word_def)
  with split_ws_word [of w "[]" "[]"] show ?case by simp
next
  case (3 w v ws)
  then have w: "\<forall>c \<in> set w. \<not> is_space c" "w \<noteq> []" by (simp_all add: word_def)
  from 3 have "split_ws [] (join (v # ws)) = v # ws" by simp
  with w split_ws_word [of w "[]" "CHR '' '' # join (v # ws)"] show ?case
    by (simp add: space_is_space)
qed

lemma split_join:
  assumes "\<forall>w \<in> set ws. word w"
  shows "split (join ws) = ws"
  using split_ws_join [OF assms] by (cases ws) (simp_all add: split_def)

lemma split_ws_words:
  assumes "\<forall>c \<in> set acc. \<not> is_space c"
  shows "\<forall>w \<in> set (split_ws acc s). word w"
  using assms
proof (induction s arbitrary: acc)
  case Nil
  then show ?case by (simp add: word_def)
next
  case (Cons a s)
  show ?case
  proof (cases "is_space a")
    case True
    from Cons.IH [of "[]"] have "\<forall>w \<in> set (split_ws [] s). word w" by simp
    with True Cons.prems show ?thesis by (simp add: word_def)
  next
    case False
    with Cons.prems have "\<forall>c \<in> set (acc @ [a]). \<not> is_space c" by simp
    from Cons.IH [OF this] False show ?thesis by simp
  qed
qed

lemma split_words: "\<forall>w \<in> set (split s). word w"
  using split_ws_words [of "[]" s] by (simp add: split_def)

lemma split_ws_blank:
  assumes "list_all is_space s"
  shows "split_ws [] s = []"
  using assms by (induction s) simp_all

lemma strip_id:
  assumes "s = [] \<or> (\<not> is_space (hd s) \<and> \<not> is_space (last s))"
  shows "strip s = s"
proof (cases "s = []")
  case True
  then show ?thesis by (simp add: strip_def)
next
  case False
  with assms have h: "\<not> is_space (hd s)" and l: "\<not> is_space (last s)" by simp_all
  from h False have 1: "dropWhile is_space s = s" by (simp add: dropWhile_eq_self_iff)
  from l False have "\<not> is_space (hd (rev s))" by (simp add: hd_rev)
  then have 2: "dropWhile is_space (rev s) = rev s" by (simp add: dropWhile_eq_self_iff)
  from 1 2 show ?thesis by (simp add: strip_def)
qed

lemma join_ends:
  assumes "\<forall>w \<in> set ws. word w" "ws \<noteq> []"
  shows "join ws \<noteq> [] \<and> hd (join ws) = hd (hd ws) \<and> last (join ws) = last (last ws)"
  using assms
proof (induction ws rule: join.induct)
  case 1
  then show ?case by simp
next
  case (2 w)
  then show ?case by (simp add: word_def)
next
  case (3 w v ws)
  then have "join (v # ws) \<noteq> []" "last (join (v # ws)) = last (last (v # ws))" by simp_all
  moreover from 3 have "w \<noteq> []" by (simp add: word_def)
  ultimately show ?case by simp
qed

lemma strip_join:
  assumes "\<forall>w \<in> set ws. word w"
  shows "strip (join ws) = join ws"
proof (cases "ws = []")
  case True
  then show ?thesis by (simp add: strip_def)
next
  case False
  from join_ends [OF assms False] have e: "hd (join ws) = hd (hd ws)" "last (join ws) = last (last ws)"
    by simp_all
  from False assms have "word (hd ws)" "word (last ws)" by simp_all
  then have "\<not> is_space (hd (hd ws))" "\<not> is_space (last (last ws))"
    by (simp_all add: word_def)
  with e show ?thesis by (simp add: strip_id)
qed

lemma word_in_join:
  assumes "v \<in> set ws"
  shows "\<exists>xs ys. join ws = xs @ v @ ys"
  using assms
proof (induction ws rule: join.induct)
  case 1
  then show ?case by simp
next
  case (2 w)
  then have "join [w] = [] @ v @ []" by simp
  then show ?case by blast
next
  case (3 w u ws)
  show ?case
  proof (cases "v = w")
    case True
    then have "join (w # u # ws) = [] @ v @ (CHR '' '' # join (u # ws))" by simp
    then show ?thesis by blast
  next
    case False
    with 3 obtain xs ys where "join (u # ws) = xs @ v @ ys" by auto
    then have "join (w # u # ws) = (w @ CHR '' '' # xs) @ v @ ys" by simp
    then show ?thesis by blast
  qed
qed

lemma monotone_infix:
  assumes "monotone_width m"
  shows "m v \<le> m (xs @ v @ ys)"
proof -
  from assms have "m ([] @ v) \<le> m ([] @ xs @ v)" unfolding monotone_width_def by blast
  moreover from assms have "m ((xs @ v) @ []) \<le> m ((xs @ v) @ ys @ [])"
    unfolding monotone_width_def by blast
  ultimately show ?thesis by simp
qed

lemma wrap_loop_words:
  assumes "\<forall>w \<in> set ws. word w" "\<forall>w \<in> set cur. word w"
    and "wrap_loop sw mw f s ws lines cur = (lines', cur')"
  shows "concat (map split lines') @ cur' = concat (map split lines) @ cur @ ws \<and>
         (\<forall>w \<in> set cur'. word w)"
  using assms
proof (induction ws arbitrary: lines cur)
  case Nil
  then show ?case by simp
next
  case (Cons w ws)
  from Cons.prems(1) have w: "word w" and ws: "\<forall>w \<in> set ws. word w" by simp_all
  show ?case
  proof (cases "sw (strip (join (cur @ [w]))) f s \<le> mw")
    case True
    with Cons.prems(3) have l: "wrap_loop sw mw f s ws lines (cur @ [w]) = (lines', cur')" by simp
    from Cons.prems(2) w have "\<forall>w \<in> set (cur @ [w]). word w" by simp
    from Cons.IH [OF ws this l] show ?thesis by simp
  next
    case False
    with Cons.prems(3) have l: "wrap_loop sw mw f s ws
        (if cur \<noteq> [] then lines @ [join cur] else lines) [w] = (lines', cur')" by simp
    from w have "\<forall>w \<in> set [w]. word w" by simp
    from Cons.IH [OF ws this l] split_join [OF Cons.prems(2)] show ?thesis by simp
  qed
qed

lemma wrap_loop_wide:
  assumes m: "monotone_width (\<lambda>t. sw t f s)"
    and "\<forall>w \<in> set ws. word w" "\<forall>w \<in> set cur. word w"
    and "\<forall>l \<in> set lines. \<forall>w \<in> set (split l). mw < sw w f s \<longrightarrow> l = w"
    and "\<forall>w \<in> set cur. mw < sw w f s \<longrightarrow> cur = [w]"
    and "wrap_loop sw mw f s ws lines cur = (lines', cur')"
  shows "(\<forall>l \<in> set lines'. \<forall>w \<in> set (split l). mw < sw w f s \<longrightarrow> l = w) \<and>
         (\<forall>w \<in> set cur'. mw < sw w f s \<longrightarrow> cur' = [w]) \<and> (\<forall>w \<in> set cur'. word w)"
  using assms(2-)
proof (induction ws arbitrary: lines cur)
  case Nil
  then show ?case by simp
next
  case (Cons w ws)
  from Cons.prems(1) have w: "word w" and ws: "\<forall>w \<in> set ws. word w" by simp_all
  show ?case
  proof (cases "sw (strip (join (cur @ [w]))) f s \<le> mw")
    case True
    with Cons.prems(5) have l: "wrap_loop sw mw f s ws lines (cur @ [w]) = (lines', cur')" by simp
    from Cons.prems(2) w have cw: "\<forall>w \<in> set (cur @ [w]). word w" by simp
    have "\<not> mw < sw v f s" if "v \<in> set (cur @ [w])" for v
    proof -
      from word_in_join [OF that] obtain xs ys where "join (cur @ [w]) = xs @ v @ ys" by blast
      with monotone_infix [OF m, of v xs ys] have "sw v f s \<le> sw (join (cur @ [w])) f s" by simp
      with True strip_join [OF cw] show ?thesis by simp
    qed
    then have "\<forall>v \<in> set (cur @ [w]). mw < sw v f s \<longrightarrow> cur @ [w] = [v]" by blast
    from Cons.IH [OF ws cw Cons.prems(3) this l] show ?thesis .
  next
    case False
    let ?lines = "if cur \<noteq> [] then lines @ [join cur] else lines"
    from False Cons.prems(5) have l: "wrap_loop sw mw f s ws ?lines [w] = (lines', cur')" by simp
    from w have 1: "\<forall>w \<in> set [w]. word w" by simp
    have 2: "\<forall>l \<in> set ?lines. \<forall>w \<in> set (split l). mw < sw w f s \<longrightarrow> l = w"
      using Cons.prems(3,4) split_join [OF Cons.prems(2)] by auto
    have 3: "\<forall>v \<in> set [w]. mw < sw v f s \<longrightarrow> [w] = [v]" by simp
    from Cons.IH [OF ws 1 2 3 l] show ?thesis .
  qed
qed

text \<open>
  C4. For every text, width bound, font and size, \<open>wrap_text\<close> returns at least one line,
  and exactly one empty line when the text is empty or all white space; the words of the
  returned lines, in order, are the words of the text. When the width measure is monotone
  (as the sum of the glyph widths at a non-negative size is), a word wider than the bound
  is the whole of its line.
\<close>

theorem wrap_text_lines:
  "wrap_text sw text mw f s \<noteq> [] \<and>
   (list_all is_space text \<longrightarrow> wrap_text sw text mw f s = [[]]) \<and>
   concat (map split (wrap_text sw text mw f s)) = split text \<and>
   (monotone_width (\<lambda>t. sw t f s) \<longrightarrow>
      (\<forall>l \<in> set (wrap_text sw text mw f s). \<forall>w \<in> set (split l). mw < sw w f s \<longrightarrow> l = w))"
proof -
  obtain lines cur where loop: "wrap_loop sw mw f s (split text) [] [] = (lines, cur)"
    by (cases "wrap_loop sw mw f s (split text) [] []") auto
  let ?lines = "if cur \<noteq> [] then lines @ [join cur] else lines"
  have res: "wrap_text sw text mw f s = (if ?lines = [] then [[]] else ?lines)"
    by (simp add: wrap_text_def loop Let_def)
  have wd: "\<forall>w \<in> set ([] :: string list). word w" by simp
  from wrap_loop_words [OF split_words wd loop]
  have words: "concat (map split lines) @ cur = split text" and cur: "\<forall>w \<in> set cur. word w"
    by simp_all
  have a: "wrap_text sw text mw f s \<noteq> []" by (simp add: res)
  have b: "wrap_text sw text mw f s = [[]]" if "list_all is_space text"
  proof -
    from that have "split text = []" by (simp add: split_def split_ws_blank)
    with loop have "lines = []" "cur = []" by simp_all
    with res show ?thesis by simp
  qed
  have c: "concat (map split (wrap_text sw text mw f s)) = split text"
  proof (cases "?lines = []")
    case True
    then have "lines = []" "cur = []" by (simp_all split: if_splits)
    with words res show ?thesis by (simp add: split_def)
  next
    case False
    with res words split_join [OF cur] show ?thesis by auto
  qed
  have d: "\<forall>l \<in> set (wrap_text sw text mw f s). \<forall>w \<in> set (split l). mw < sw w f s \<longrightarrow> l = w"
    if m: "monotone_width (\<lambda>t. sw t f s)"
  proof -
    have 1: "\<forall>l \<in> set ([] :: string list). \<forall>w \<in> set (split l). mw < sw w f s \<longrightarrow> l = w" by simp
    have 2: "\<forall>w \<in> set ([] :: string list). mw < sw w f s \<longrightarrow> [] = [w]" by simp
    from wrap_loop_wide [OF m split_words wd 1 2 loop]
    have l: "\<forall>l \<in> set lines. \<forall>w \<in> set (split l). mw < sw w f s \<longrightarrow> l = w"
      and w: "\<forall>w \<in> set cur. mw < sw w f s \<longrightarrow> cur = [w]"
      by simp_all
    have j: "\<forall>w \<in> set (split (join cur)). mw < sw w f s \<longrightarrow> join cur = w"
      using w split_join [OF cur] by auto
    show ?thesis
    proof (cases "?lines = []")
      case True
      with res show ?thesis by (simp add: split_def)
    next
      case False
      with res l j show ?thesis by auto
    qed
  qed
  from a b c d show ?thesis by blast
qed

theorem wrap_text_lines_witness:
  "wrap_text fixed_pitch ''aa bbbbbbbb cc d'' 5 ''Helvetica'' 1 = [''aa'', ''bbbbbbbb'', ''cc d''] \<and>
   concat (map split (wrap_text fixed_pitch ''aa bbbbbbbb cc d'' 5 ''Helvetica'' 1))
     = split ''aa bbbbbbbb cc d'' \<and>
   list_all (\<lambda>l. list_all (\<lambda>w. 5 < fixed_pitch w ''Helvetica'' 1 \<longrightarrow> l = w) (split l))
     (wrap_text fixed_pitch ''aa bbbbbbbb cc d'' 5 ''Helvetica'' 1)"
proof -
  have m: "monotone_width (\<lambda>t. fixed_pitch t ''Helvetica'' 1)"
    by (simp add: monotone_width_def fixed_pitch_def)
  have e: "wrap_text fixed_pitch ''aa bbbbbbbb cc d'' 5 ''Helvetica'' 1 = [''aa'', ''bbbbbbbb'', ''cc d'']"
    by code_simp
  note t = wrap_text_lines [of fixed_pitch "''aa bbbbbbbb cc d''" 5 "''Helvetica''" 1]
  from t have c: "concat (map split (wrap_text fixed_pitch ''aa bbbbbbbb cc d'' 5 ''Helvetica'' 1))
     = split ''aa bbbbbbbb cc d''" by (elim conjE)
  from t m have d: "\<forall>l \<in> set (wrap_text fixed_pitch ''aa bbbbbbbb cc d'' 5 ''Helvetica'' 1).
      \<forall>w \<in> set (split l). 5 < fixed_pitch w ''Helvetica'' 1 \<longrightarrow> l = w"
    by (elim conjE) (erule mp)
  from d have d': "list_all (\<lambda>l. list_all (\<lambda>w. 5 < fixed_pitch w ''Helvetica'' 1 \<longrightarrow> l = w) (split l))
     (wrap_text fixed_pitch ''aa bbbbbbbb cc d'' 5 ''Helvetica'' 1)"
    by (simp only: list_all_iff)
  from e c d' show ?thesis by (intro conjI)
qed

section \<open>Ellipsis\<close>

declare ellipsize_loop.simps [simp del]

lemma ellipsize_loop_done:
  "\<not> lo < hi \<Longrightarrow> ellipsize_loop sw ell tx W f s lo hi = lo"
  by (subst ellipsize_loop.simps) simp

lemma ellipsize_loop_fit:
  "lo < hi \<Longrightarrow> sw (take ((lo + hi) div 2) tx @ ell) f s \<le> W \<Longrightarrow>
   ellipsize_loop sw ell tx W f s lo hi = ellipsize_loop sw ell tx W f s ((lo + hi) div 2 + 1) hi"
  by (subst ellipsize_loop.simps) (simp add: Let_def)

lemma ellipsize_loop_nofit:
  "lo < hi \<Longrightarrow> \<not> sw (take ((lo + hi) div 2) tx @ ell) f s \<le> W \<Longrightarrow>
   ellipsize_loop sw ell tx W f s lo hi = ellipsize_loop sw ell tx W f s lo ((lo + hi) div 2)"
  by (subst ellipsize_loop.simps) (simp add: Let_def)

lemma ellipsize_loop_range:
  assumes "lo \<le> hi"
  shows "lo \<le> ellipsize_loop sw ell tx W f s lo hi \<and> ellipsize_loop sw ell tx W f s lo hi \<le> hi"
  using assms
proof (induction sw ell tx W f s lo hi rule: ellipsize_loop.induct)
  case (1 sw ell tx W f s lo hi)
  show ?case
  proof (cases "lo < hi")
    case False
    with "1.prems" show ?thesis by (simp add: ellipsize_loop_done)
  next
    case True
    let ?mid = "(lo + hi) div 2"
    from True have m: "lo \<le> ?mid" "?mid < hi" by simp_all
    show ?thesis
    proof (cases "sw (take ?mid tx @ ell) f s \<le> W")
      case fits: True
      from "1.IH"(1) [OF True refl fits] m
      have "?mid + 1 \<le> ellipsize_loop sw ell tx W f s (?mid + 1) hi \<and>
            ellipsize_loop sw ell tx W f s (?mid + 1) hi \<le> hi" by simp
      with True fits m show ?thesis
        by (simp add: ellipsize_loop_fit ellipsize_loop_nofit)
    next
      case nofit: False
      from "1.IH"(2) [OF True refl nofit] m
      have "lo \<le> ellipsize_loop sw ell tx W f s lo ?mid \<and>
            ellipsize_loop sw ell tx W f s lo ?mid \<le> ?mid" by simp
      with True nofit m show ?thesis
        by (simp add: ellipsize_loop_fit ellipsize_loop_nofit)
    qed
  qed
qed

lemma ellipsize_loop_fits:
  assumes "lo = 0 \<or> sw (take (lo - 1) tx @ ell) f s \<le> W"
  shows "ellipsize_loop sw ell tx W f s lo hi = 0 \<or>
         sw (take (ellipsize_loop sw ell tx W f s lo hi - 1) tx @ ell) f s \<le> W"
  using assms
proof (induction sw ell tx W f s lo hi rule: ellipsize_loop.induct)
  case (1 sw ell tx W f s lo hi)
  show ?case
  proof (cases "lo < hi")
    case False
    with "1.prems" show ?thesis by (simp add: ellipsize_loop_done)
  next
    case True
    let ?mid = "(lo + hi) div 2"
    show ?thesis
    proof (cases "sw (take ?mid tx @ ell) f s \<le> W")
      case fits: True
      then have "?mid + 1 = 0 \<or> sw (take (?mid + 1 - 1) tx @ ell) f s \<le> W" by simp
      from "1.IH"(1) [OF True refl fits this] True fits show ?thesis
        by (simp add: ellipsize_loop_fit ellipsize_loop_nofit)
    next
      case nofit: False
      from "1.IH"(2) [OF True refl nofit "1.prems"] True nofit show ?thesis
        by (simp add: ellipsize_loop_fit ellipsize_loop_nofit)
    qed
  qed
qed

lemma ellipsize_loop_longest:
  assumes "\<And>j k. j \<le> k \<Longrightarrow> sw (take k tx @ ell) f s \<le> W \<Longrightarrow> sw (take j tx @ ell) f s \<le> W"
    and "\<forall>k \<ge> hi. \<not> sw (take k tx @ ell) f s \<le> W"
  shows "\<forall>k \<ge> ellipsize_loop sw ell tx W f s lo hi. \<not> sw (take k tx @ ell) f s \<le> W"
  using assms
proof (induction sw ell tx W f s lo hi rule: ellipsize_loop.induct)
  case (1 sw ell tx W f s lo hi)
  show ?case
  proof (cases "lo < hi")
    case False
    with "1.prems"(2) show ?thesis by (simp add: ellipsize_loop_done)
  next
    case True
    let ?mid = "(lo + hi) div 2"
    show ?thesis
    proof (cases "sw (take ?mid tx @ ell) f s \<le> W")
      case fits: True
      from "1.IH"(1) [OF True refl fits "1.prems"] True fits show ?thesis
        by (simp add: ellipsize_loop_fit ellipsize_loop_nofit)
    next
      case nofit: False
      have "\<forall>k \<ge> ?mid. \<not> sw (take k tx @ ell) f s \<le> W"
        using nofit "1.prems"(1) by blast
      from "1.IH"(2) [OF True refl nofit "1.prems"(1) this] True nofit show ?thesis
        by (simp add: ellipsize_loop_fit ellipsize_loop_nofit)
    qed
  qed
qed

lemma take_split: "j \<le> k \<Longrightarrow> take k tx = take j tx @ drop j (take k tx)"
  by (metis append_take_drop_id min.absorb1 take_take)

lemma fits_antimono:
  assumes m: "monotone_width (\<lambda>t. sw t f s)" and "j \<le> k"
    and "sw (take k tx @ ell) f s \<le> W"
  shows "sw (take j tx @ ell) f s \<le> W"
proof -
  from m have "sw (take j tx @ ell) f s \<le> sw (take j tx @ drop j (take k tx) @ ell) f s"
    unfolding monotone_width_def by blast
  also have "take j tx @ drop j (take k tx) @ ell = take k tx @ ell"
    using take_split [OF assms(2), of tx] by simp
  finally show ?thesis using assms(3) by simp
qed

text \<open>
  C5. Let the bound \<open>W\<close> be at least the width of the ellipsis. A text that fits is
  returned unchanged. Otherwise the result is a prefix of the text followed by the
  ellipsis, and its width is at most \<open>W\<close>; when the width measure is monotone, no longer
  prefix followed by the ellipsis fits. The prefix may be empty: the result is then the
  ellipsis alone.
\<close>

theorem ellipsize_fits:
  assumes "sw ell f s \<le> W"
  shows "(sw tx f s \<le> W \<longrightarrow> ellipsize sw ell tx W f s = tx) \<and>
         (\<not> sw tx f s \<le> W \<longrightarrow>
            (\<exists>n \<le> length tx. ellipsize sw ell tx W f s = take n tx @ ell \<and>
               sw (take n tx @ ell) f s \<le> W \<and>
               (monotone_width (\<lambda>t. sw t f s) \<longrightarrow>
                  (\<forall>k. sw (take k tx @ ell) f s \<le> W \<longrightarrow> k \<le> n))))"
proof (intro conjI impI)
  assume "sw tx f s \<le> W"
  then show "ellipsize sw ell tx W f s = tx" by (simp add: ellipsize_def)
next
  assume wide: "\<not> sw tx f s \<le> W"
  define r where "r = ellipsize_loop sw ell tx W f s 0 (length tx)"
  have res: "ellipsize sw ell tx W f s = take (r - 1) tx @ ell"
    using wide by (simp add: ellipsize_def r_def)
  from ellipsize_loop_range [where lo = 0 and hi = "length tx" and sw = sw and ell = ell and tx = tx and W = W and f = f and s = s] have len: "r - 1 \<le> length tx"
    by (simp add: r_def)
  from ellipsize_loop_fits [where lo = 0 and hi = "length tx" and sw = sw and ell = ell and tx = tx and W = W and f = f and s = s]
  have "r = 0 \<or> sw (take (r - 1) tx @ ell) f s \<le> W" by (simp add: r_def)
  with assms have fit: "sw (take (r - 1) tx @ ell) f s \<le> W" by auto
  have longest: "k \<le> r - 1"
    if m: "monotone_width (\<lambda>t. sw t f s)" and k: "sw (take k tx @ ell) f s \<le> W" for k
  proof -
    from m have "sw (tx @ []) f s \<le> sw (tx @ ell @ []) f s"
      unfolding monotone_width_def by blast
    with wide have "\<not> sw (tx @ ell) f s \<le> W" by auto
    then have top: "\<forall>k \<ge> length tx. \<not> sw (take k tx @ ell) f s \<le> W" by simp
    have anti: "sw (take j tx @ ell) f s \<le> W"
      if "j \<le> k" "sw (take k tx @ ell) f s \<le> W" for j k
      using m that by (rule fits_antimono [where sw = sw and f = f and s = s])
    from ellipsize_loop_longest [where lo = 0 and hi = "length tx" and sw = sw and ell = ell
        and tx = tx and W = W and f = f and s = s, OF anti top]
    have "\<forall>k \<ge> r. \<not> sw (take k tx @ ell) f s \<le> W" by (simp add: r_def)
    with k have "k < r" by (meson not_le)
    then show ?thesis by simp
  qed
  from res len fit longest
  show "\<exists>n \<le> length tx. ellipsize sw ell tx W f s = take n tx @ ell \<and>
               sw (take n tx @ ell) f s \<le> W \<and>
               (monotone_width (\<lambda>t. sw t f s) \<longrightarrow>
                  (\<forall>k. sw (take k tx @ ell) f s \<le> W \<longrightarrow> k \<le> n))"
    by blast
qed

theorem ellipsize_fits_witness:
  "ellipsize fixed_pitch_cp [8230] (map of_char ''Screwdriver'') 5 ''Helvetica'' 1
     = map of_char ''Scre'' @ [8230] \<and>
   (\<exists>n. ellipsize fixed_pitch_cp [8230] (map of_char ''Screwdriver'') 5 ''Helvetica'' 1
          = take n (map of_char ''Screwdriver'') @ [8230] \<and>
        fixed_pitch_cp (take n (map of_char ''Screwdriver'') @ [8230]) ''Helvetica'' 1 \<le> 5 \<and>
        (\<forall>k. fixed_pitch_cp (take k (map of_char ''Screwdriver'') @ [8230]) ''Helvetica'' 1 \<le> 5
             \<longrightarrow> k \<le> n))"
proof -
  let ?tx = "map of_char ''Screwdriver'' :: nat list"
  have e: "ellipsize fixed_pitch_cp [8230] ?tx 5 ''Helvetica'' 1 = map of_char ''Scre'' @ [8230]"
    by code_simp
  have a: "fixed_pitch_cp [8230] ''Helvetica'' 1 \<le> 5" by (simp add: fixed_pitch_cp_def)
  have w: "\<not> fixed_pitch_cp ?tx ''Helvetica'' 1 \<le> 5" by (simp add: fixed_pitch_cp_def)
  have m: "monotone_width (\<lambda>t. fixed_pitch_cp t ''Helvetica'' 1)"
    by (simp add: monotone_width_def fixed_pitch_cp_def)
  note t = ellipsize_fits [where sw = fixed_pitch_cp and ell = "[8230]" and f = "''Helvetica''"
      and s = 1 and W = 5 and tx = ?tx, OF a]
  from t [THEN conjunct2, THEN mp, OF w]
  obtain n where n: "ellipsize fixed_pitch_cp [8230] ?tx 5 ''Helvetica'' 1 = take n ?tx @ [8230]"
    "fixed_pitch_cp (take n ?tx @ [8230]) ''Helvetica'' 1 \<le> 5"
    "monotone_width (\<lambda>t. fixed_pitch_cp t ''Helvetica'' 1) \<longrightarrow>
       (\<forall>k. fixed_pitch_cp (take k ?tx @ [8230]) ''Helvetica'' 1 \<le> 5 \<longrightarrow> k \<le> n)"
    by (elim exE conjE) (rule that; assumption)
  from n(3) m have "\<forall>k. fixed_pitch_cp (take k ?tx @ [8230]) ''Helvetica'' 1 \<le> 5 \<longrightarrow> k \<le> n"
    by (rule mp)
  with n(1,2) e show ?thesis by (intro conjI exI)
qed

section \<open>Order of the labels\<close>

lemma read_csvs_distinct:
  assumes "read_csvs files = Inr ts"
  shows "distinct (map fst ts)"
proof -
  from assms obtain ts0 where ts0: "read_files files [] = Inr ts0" and ts: "ts = build_links ts0"
    by (rule read_csvs_split)
  from build_links_linked [OF read_files_wf_start [OF ts0]] ts read_files_wf_start [OF ts0]
  show ?thesis by (simp add: wf_totes_def)
qed

lemma sort_same_set:
  fixes xs ys :: "string list"
  assumes "distinct xs" "distinct ys" "set xs = set ys"
  shows "sort xs = sort ys"
  using assms by (intro sorted_distinct_set_unique) simp_all

lemma generate_pdf_Inr:
  "generate_pdf env ts p pg md = Inr d \<longleftrightarrow>
     dirname p \<noteq> [] \<and> dir_ok env (dirname p) \<and> render_ok env p md \<and>
     d = \<lparr>path = p, pagesize = (if lower pg = ''letter'' then Letter else A4), render_mode = md,
           labels = sort (map fst ts)\<rparr>"
  by (auto simp: generate_pdf_def Let_def)

text \<open>
  Where \<open>generate_pdf\<close> returns, it has drawn one label per container, in ascending order
  of the ids, whatever the insertion order.
\<close>

lemma generate_pdf_labels:
  assumes "generate_pdf env ts p pg md = Inr d" "distinct (map fst ts)"
  shows "sorted (labels d) \<and> distinct (labels d) \<and> set (labels d) = fst ` set ts \<and>
         length (labels d) = length ts"
  using assms by (auto simp: generate_pdf_Inr)

lemma generate_pdf_any_order:
  assumes "generate_pdf env ts p pg md = Inr d" "generate_pdf env ts' p pg md = Inr d'"
    and "distinct (map fst ts)" "distinct (map fst ts')" "set ts' = set ts"
  shows "labels d' = labels d"
proof -
  from assms(5) have "set (map fst ts') = set (map fst ts)" by simp
  from sort_same_set [OF assms(4,3) this] assms(1,2) show ?thesis
    by (auto simp: generate_pdf_Inr)
qed

text \<open>
  In mode \<open>both\<close>, for a model with containers and an output path whose directory can be
  made, \<open>main\<close> saves the two documents when nothing fails in drawing them.
\<close>

lemma main_both_documents:
  assumes "resolve (arg_input a) = Some files" "read_csvs files = Inr ts" "ts \<noteq> []"
    and "arg_mode a = ''both''" "splitext (arg_output a) = (base, ext)"
    and "thumbs_path = base @ ''_thumbs'' @ (if ext = [] then ''.pdf'' else ext)"
    and "text_path = base @ ''_text'' @ (if ext = [] then ''.pdf'' else ext)"
    and "dirname thumbs_path \<noteq> []" "dir_ok env (dirname thumbs_path)" "render_ok env thumbs_path ''thumbs''"
    and "dirname text_path \<noteq> []" "dir_ok env (dirname text_path)" "render_ok env text_path ''text''"
  shows "\<exists>d1 d2. main resolve env a = Inr (0, [d1, d2]) \<and>
           path d1 = thumbs_path \<and> path d2 = text_path \<and>
           render_mode d1 = ''thumbs'' \<and> render_mode d2 = ''text'' \<and>
           labels d1 = sort (map fst ts) \<and> labels d2 = sort (map fst ts)"
  using assms by (simp add: main_def Let_def generate_pdf_def)

lemma main_sample:
  "main (\<lambda>p. Some [sample_file]) willing sample_args
     = Inr (0, [\<lparr>path = ''output/labels_thumbs.pdf'', pagesize = Letter, render_mode = ''thumbs'',
                  labels = [''T1'', ''T2'', ''T3'']\<rparr>,
                \<lparr>path = ''output/labels_text.pdf'', pagesize = Letter, render_mode = ''text'',
                  labels = [''T1'', ''T2'', ''T3'']\<rparr>])"
  by code_simp

lemma generate_pdf_sample:
  "generate_pdf willing unordered_model ''out/o.pdf'' ''letter'' ''text''
     = Inr \<lparr>path = ''out/o.pdf'', pagesize = Letter, render_mode = ''text'',
             labels = [''A'', ''AB'', ''B'', ''a'']\<rparr>"
  by code_simp

text \<open>
  C8 against the code. With an output path that has no directory part, as in
  \<open>-o labels.pdf\<close>, \<open>generate_pdf\<close> asks \<open>os.makedirs\<close> for the directory \<open>''\<close> and raises
  before a label is drawn, whatever the file system. In mode \<open>both\<close> on a model with
  three containers \<open>main\<close> then saves no document and returns 3. The claim has one label
  per container drawn, and two documents saved.
\<close>

theorem bare_output_path_fails:
  "generate_pdf env sample_model ''labels_thumbs.pdf'' ''letter'' ''thumbs'' = Inl MakedirsError \<and>
   main (\<lambda>p. Some [sample_file]) env bare_args = Inr (3, [])"
proof -
  have d: "dirname ''labels_thumbs.pdf'' = []" by code_simp
  have s: "splitext (arg_output bare_args) = (''labels'', ''.pdf'')" by code_simp
  have e: "read_csvs [sample_file] = Inr sample_model" by code_simp
  have n: "sample_model \<noteq> []" by (simp add: sample_model_def)
  have m: "arg_mode bare_args = ''both''" by (simp add: bare_args_def)
  have g: "generate_pdf env sample_model ''labels_thumbs.pdf'' pg md = Inl MakedirsError" for pg md
    by (simp add: generate_pdf_def d)
  have "main (\<lambda>p. Some [sample_file]) env bare_args = Inr (3, [])"
    using n by (simp add: main_def e m s g)
  with g show ?thesis by simp
qed

section \<open>Failures of the thumbnail resolution\<close>

lemma fetch_remote_result:
  "fst (fetch_remote w url px steps) = Inr (download w url px)"
  by (simp add: fetch_remote_def split: option.splits)

lemma fetch_remote_steps:
  "\<exists>rest. snd (snd (fetch_remote w url px steps)) = steps @ Get # rest"
  by (simp add: fetch_remote_def split: option.splits)

lemma fetch_remote_cache:
  assumes "cache w (url, px) \<noteq> Some Corrupt"
  shows "cache (fst (snd (fetch_remote w url px steps))) (url, px) \<noteq> Some Corrupt"
  using assms by (simp add: fetch_remote_def split: option.splits)

text \<open>
  C9. When the cache directory can be made, \<open>fetch_thumbnail\<close> never raises: it returns a
  bitmap or \<open>None\<close>. With no readable cache file, a download that fails (network error,
  timeout, HTTP error status, decode failure) makes it return \<open>None\<close>. A cache file that
  fails to decode is treated as a miss: the function tries to remove it, then fetches the
  URL, and returns what the download gives; when the removal succeeds the corrupt file is
  gone afterwards.
\<close>

theorem fetch_thumbnail_total:
  assumes "makedirs_ok w"
  shows "(\<exists>r. fst (fetch_thumbnail w url px) = Inr r) \<and>
         ((\<forall>img. cache w (url, px) \<noteq> Some (Bitmap img)) \<longrightarrow> download w url px = None \<longrightarrow>
            fst (fetch_thumbnail w url px) = Inr None) \<and>
         (image_lib w \<longrightarrow> cache w (url, px) = Some Corrupt \<longrightarrow>
            fst (fetch_thumbnail w url px) = Inr (download w url px) \<and>
            (\<exists>rest. snd (snd (fetch_thumbnail w url px)) = Remove # Get # rest) \<and>
            (remove_ok w \<longrightarrow> cache (fst (snd (fetch_thumbnail w url px))) (url, px) \<noteq> Some Corrupt))"
proof -
  have 1: "\<exists>r. fst (fetch_thumbnail w url px) = Inr r"
    using assms by (simp add: fetch_thumbnail_def fetch_remote_result split: option.splits cached.splits)
  have 2: "fst (fetch_thumbnail w url px) = Inr None"
    if "\<forall>img. cache w (url, px) \<noteq> Some (Bitmap img)" "download w url px = None"
    using assms that
    by (simp add: fetch_thumbnail_def fetch_remote_result split: option.splits cached.splits)
  have 3: "fst (fetch_thumbnail w url px) = Inr (download w url px) \<and>
            (\<exists>rest. snd (snd (fetch_thumbnail w url px)) = Remove # Get # rest) \<and>
            (remove_ok w \<longrightarrow> cache (fst (snd (fetch_thumbnail w url px))) (url, px) \<noteq> Some Corrupt)"
    if l: "image_lib w" and c: "cache w (url, px) = Some Corrupt"
  proof -
    let ?w = "if remove_ok w then w\<lparr>cache := (cache w)((url, px) := None)\<rparr> else w"
    have f: "fetch_thumbnail w url px = fetch_remote ?w url px [Remove]"
      using assms l c by (simp add: fetch_thumbnail_def)
    have d: "download ?w url px = download w url px" by simp
    have a: "fst (fetch_thumbnail w url px) = Inr (download w url px)"
      unfolding f fetch_remote_result d ..
    have b: "\<exists>rest. snd (snd (fetch_thumbnail w url px)) = Remove # Get # rest"
      unfolding f using fetch_remote_steps [of ?w url px "[Remove]"] by simp
    have e: "cache (fst (snd (fetch_thumbnail w url px))) (url, px) \<noteq> Some Corrupt" if "remove_ok w"
    proof -
      from that have "cache ?w (url, px) \<noteq> Some Corrupt" by simp
      from fetch_remote_cache [OF this] show ?thesis unfolding f .
    qed
    from a b e show ?thesis by blast
  qed
  from 1 2 3 show ?thesis by blast
qed

theorem fetch_thumbnail_total_witness:
  "fst (fetch_thumbnail offline ''http://h/s.png'' 128) = Inr None \<and>
   snd (snd (fetch_thumbnail offline ''http://h/s.png'' 128)) = [Remove, Get] \<and>
   cache (fst (snd (fetch_thumbnail offline ''http://h/s.png'' 128))) (''http://h/s.png'', 128) = None \<and>
   (\<exists>rest. snd (snd (fetch_thumbnail offline ''http://h/s.png'' 128)) = Remove # Get # rest)"
proof -
  have m: "makedirs_ok offline" "image_lib offline" by (simp_all add: offline_def)
  have c: "cache offline (''http://h/s.png'', 128) = Some Corrupt" by (simp add: offline_def)
  have d: "download offline ''http://h/s.png'' 128 = None" by (simp add: offline_def)
  note t = fetch_thumbnail_total [OF m(1), of "''http://h/s.png''" 128]
  from t have
    "image_lib offline \<longrightarrow> cache offline (''http://h/s.png'', 128) = Some Corrupt \<longrightarrow>
       fst (fetch_thumbnail offline ''http://h/s.png'' 128) = Inr (download offline ''http://h/s.png'' 128) \<and>
       (\<exists>rest. snd (snd (fetch_thumbnail offline ''http://h/s.png'' 128)) = Remove # Get # rest) \<and>
       (remove_ok offline \<longrightarrow>
          cache (fst (snd (fetch_thumbnail offline ''http://h/s.png'' 128))) (''http://h/s.png'', 128)
            \<noteq> Some Corrupt)"
    by (elim conjE)
  with m(2) c d have r: "fst (fetch_thumbnail offline ''http://h/s.png'' 128) = Inr None"
    and s: "\<exists>rest. snd (snd (fetch_thumbnail offline ''http://h/s.png'' 128)) = Remove # Get # rest"
    by simp_all
  have x: "snd (snd (fetch_thumbnail offline ''http://h/s.png'' 128)) = [Remove, Get]"
    by (simp add: fetch_thumbnail_def fetch_remote_def offline_def)
  have y: "cache (fst (snd (fetch_thumbnail offline ''http://h/s.png'' 128))) (''http://h/s.png'', 128) = None"
    by (simp add: fetch_thumbnail_def fetch_remote_def offline_def)
  from r x y s show ?thesis by (intro conjI)
qed

section \<open>Width of the grid rows\<close>

declare grid_rows.simps [simp del]

lemma grid_rows_cong:
  assumes "\<forall>it \<in> set its. \<forall>w. m it w = m' it w"
  shows "grid_rows L cols m its c = grid_rows L cols m' its c"
  using assms
proof (induction "length its" arbitrary: its c rule: less_induct)
  case less
  show ?case
  proof (cases "its = [] \<or> cols = 0")
    case True
    then show ?thesis by (simp add: grid_rows.simps [of L cols _ its c])
  next
    case False
    then have len: "length (drop cols its) < length its" by simp
    have heights: "map (\<lambda>it. m it w) (take cols its) = map (\<lambda>it. m' it w) (take cols its)" for w
      using less.prems by (auto dest: in_set_takeD)
    have rest: "\<forall>it \<in> set (drop cols its). \<forall>w. m it w = m' it w"
      using less.prems by (auto dest: in_set_dropD)
    from less.hyps [OF len rest]
    have ih: "grid_rows L cols m (drop cols its) c' = grid_rows L cols m' (drop cols its) c'" for c' .
    show ?thesis
      by (subst grid_rows.simps [of L cols m its c], subst grid_rows.simps [of L cols m' its c])
         (simp only: Let_def heights ih)
  qed
qed

lemma measure_cell_text_plain:
  assumes "strip (description it) = []"
  shows "measure_cell_text sw ell font_body it w = 19"
  using assms by (simp add: measure_cell_text_def pad_def)

text \<open>
  C6 against the code. A label with a QR code on a letter page with the half-inch margin;
  a one-line title, a one-line id, no location and no children, so the grid starts at
  \<open>y = 662\<close>; 101 items without description in text mode, which makes 26 rows of height
  19. The first 24 rows fill the first page. The 25th row goes to the continuation page
  with the full width 540; the 26th row is on the continuation page as well, starts at
  \<open>y = 709\<close>, above the bottom 648 of the QR code of the first page, and is narrowed to
  414, whatever the font.
\<close>

theorem continuation_row_narrowed:
  "items_top (label_layout letter (1 / 2 * inch) True) 1 1 None None = 662 \<and>
   map (\<lambda>b. (on_page b, row_top b, row_available_width b))
     (drop 24 (snd (render_items_grid_text sw ell font_body
        (label_layout letter (1 / 2 * inch) True) (replicate 101 plain_item)
        \<lparr>cursor_y = items_top (label_layout letter (1 / 2 * inch) True) 1 1 None None,
          showpages = 0\<rparr>)))
   = [(1, 734, 540), (1, 709, 414)]"
proof -
  let ?L = "label_layout letter (1 / 2 * inch) True"
  have top: "items_top ?L 1 1 None None = 662" by code_simp
  have plain: "\<forall>it \<in> set (replicate 101 plain_item). \<forall>w.
      measure_cell_text sw ell font_body it w = (\<lambda>it w. 19) it w"
    by (simp add: measure_cell_text_plain plain_item_def strip_def)
  have ne: "replicate 101 plain_item \<noteq> []" by simp
  have rows: "map (\<lambda>b. (on_page b, row_top b, row_available_width b))
     (drop 24 (snd (grid_rows ?L 4 (\<lambda>it w. 19) (replicate 101 plain_item)
        \<lparr>cursor_y = 662, showpages = 0\<rparr>)))
     = [(1, 734, 540), (1, 709, 414)]"
    by code_simp
  have "render_items_grid_text sw ell font_body ?L (replicate 101 plain_item)
          \<lparr>cursor_y = 662, showpages = 0\<rparr>
        = grid_rows ?L 4 (\<lambda>it w. 19) (replicate 101 plain_item) \<lparr>cursor_y = 662, showpages = 0\<rparr>"
    unfolding render_items_grid_text_def using ne grid_rows_cong [OF plain] by simp
  with rows top show ?thesis by simp
qed

end
